theory Spec2Isabelle
  imports Main
begin

section \<open>Errors\<close>

text \<open>
  The exceptions that the task store of \<^verbatim>\<open>paasta_tools/frameworks/task_store.py\<close> can
  see. \<open>OutsideModel\<close> is not a Python exception: it marks a payload that uses a
  feature of the JSON library which this development does not model (see below), and
  nothing is claimed about such a payload.
\<close>

datatype error =
    TypeError
  | JSONDecodeError
  | NoNodeError
  | NodeExistsError
  | MesosTaskParametersIsImmutableError
  | NotImplementedError
  | OutsideModel

section \<open>The JSON library\<close>

text \<open>
  \<^verbatim>\<open>json.dumps\<close> and \<^verbatim>\<open>json.loads\<close> belong to the Python standard library. They are
  modelled on the values that the store writes: \<^verbatim>\<open>None\<close>, booleans, integers, strings of
  characters below code point 256, lists, and dictionaries with string keys. A
  dictionary is an association list in insertion order.

  A payload is a byte string. \<open>loads\<close> answers \<open>OutsideModel\<close> for a payload with a
  zero byte or a byte above 127 (where the real library first guesses and undoes a
  text encoding), for a number with a fraction or an exponent and for the literals
  \<^verbatim>\<open>NaN\<close> and \<^verbatim>\<open>Infinity\<close> (floating point), and for a \<^verbatim>\<open>\uXXXX\<close> escape of a code point
  from 256 on. On every other payload it follows the scanner of the library.
\<close>

datatype json =
    JNull
  | JBool bool
  | JInt int
  | JStr string
  | JList "json list"
  | JDict "(string \<times> json) list"

subsection \<open>Encoding\<close>

definition hexdigit :: "nat \<Rightarrow> char" where
  "hexdigit n = ''0123456789abcdef'' ! n"

definition escape_char :: "char \<Rightarrow> string" where
  "escape_char c =
     (if c = CHR 0x22 then [CHR 0x5C, CHR 0x22]
      else if c = CHR 0x5C then [CHR 0x5C, CHR 0x5C]
      else if c = CHR 0x0A then [CHR 0x5C, CHR ''n'']
      else if c = CHR 0x0D then [CHR 0x5C, CHR ''r'']
      else if c = CHR 0x09 then [CHR 0x5C, CHR ''t'']
      else if c = CHR 0x08 then [CHR 0x5C, CHR ''b'']
      else if c = CHR 0x0C then [CHR 0x5C, CHR ''f'']
      else if 32 \<le> (of_char c :: nat) \<and> (of_char c :: nat) \<le> 126 then [c]
      else [CHR 0x5C, CHR ''u'', CHR ''0'', CHR ''0'',
            hexdigit (of_char c div 16), hexdigit (of_char c mod 16)])"

definition encode_basestring_ascii :: "string \<Rightarrow> string" where
  "encode_basestring_ascii s = CHR 0x22 # concat (map escape_char s) @ [CHR 0x22]"

fun digits :: "nat \<Rightarrow> string" where
  "digits n =
     (if n < 10 then [''0123456789'' ! n]
      else digits (n div 10) @ [''0123456789'' ! (n mod 10)])"

declare digits.simps [simp del]

definition int_repr :: "int \<Rightarrow> string" where
  "int_repr i = (if i < 0 then CHR ''-'' # digits (nat (- i)) else digits (nat i))"

fun join :: "string \<Rightarrow> string list \<Rightarrow> string" where
  "join sep [] = []"
| "join sep [x] = x"
| "join sep (x # y # ys) = x @ sep @ join sep (y # ys)"

fun dumps :: "json \<Rightarrow> string" where
  "dumps JNull = ''null''"
| "dumps (JBool b) = (if b then ''true'' else ''false'')"
| "dumps (JInt i) = int_repr i"
| "dumps (JStr s) = encode_basestring_ascii s"
| "dumps (JList vs) = ''['' @ join '', '' (map dumps vs) @ '']''"
| "dumps (JDict ps) =
     ''{'' @ join '', '' (map (\<lambda>p. encode_basestring_ascii (fst p) @ '': '' @ dumps (snd p)) ps)
       @ ''}''"

subsection \<open>Decoding\<close>

definition is_ws :: "char \<Rightarrow> bool" where
  "is_ws c = (c = CHR '' '' \<or> c = CHR 0x09 \<or> c = CHR 0x0A \<or> c = CHR 0x0D)"

definition skip_ws :: "string \<Rightarrow> string" where
  "skip_ws s = dropWhile is_ws s"

definition is_digit :: "char \<Rightarrow> bool" where
  "is_digit c = (48 \<le> (of_char c :: nat) \<and> (of_char c :: nat) \<le> 57)"

definition nat_of_digits :: "string \<Rightarrow> nat" where
  "nat_of_digits ds = foldl (\<lambda>a c. 10 * a + (of_char c - 48)) 0 ds"

definition hexval :: "char \<Rightarrow> nat option" where
  "hexval c =
     (let n = (of_char c :: nat) in
      if 48 \<le> n \<and> n \<le> 57 then Some (n - 48)
      else if 97 \<le> n \<and> n \<le> 102 then Some (n - 87)
      else if 65 \<le> n \<and> n \<le> 70 then Some (n - 55)
      else None)"

definition decode_uXXXX :: "string \<Rightarrow> nat option" where
  "decode_uXXXX s =
     (case map hexval (take 4 s) of
        [Some a, Some b, Some c, Some d] \<Rightarrow> Some (((a * 16 + b) * 16 + c) * 16 + d)
      | _ \<Rightarrow> None)"

definition unescape :: "char \<Rightarrow> char option" where
  "unescape e =
     (if e = CHR 0x22 then Some (CHR 0x22)
      else if e = CHR 0x5C then Some (CHR 0x5C)
      else if e = CHR ''/'' then Some (CHR ''/'')
      else if e = CHR ''b'' then Some (CHR 0x08)
      else if e = CHR ''f'' then Some (CHR 0x0C)
      else if e = CHR ''n'' then Some (CHR 0x0A)
      else if e = CHR ''r'' then Some (CHR 0x0D)
      else if e = CHR ''t'' then Some (CHR 0x09)
      else None)"

text \<open>The text of a string after its opening quote, up to the closing one (strict mode).\<close>

fun scanstring :: "string \<Rightarrow> error + string \<times> string" where
  "scanstring [] = Inl JSONDecodeError"
| "scanstring (c # cs) =
     (if c = CHR 0x22 then Inr ([], cs)
      else if c = CHR 0x5C then
        (case cs of
           [] \<Rightarrow> Inl JSONDecodeError
         | e # es \<Rightarrow>
             if e = CHR ''u'' then
               (case decode_uXXXX es of
                  None \<Rightarrow> Inl JSONDecodeError
                | Some n \<Rightarrow>
                    if n < 256 then
                      (case scanstring (drop 4 es) of
                         Inl err \<Rightarrow> Inl err
                       | Inr (t, r) \<Rightarrow> Inr (char_of n # t, r))
                    else Inl OutsideModel)
             else
               (case unescape e of
                  None \<Rightarrow> Inl JSONDecodeError
                | Some x \<Rightarrow>
                    (case scanstring es of
                       Inl err \<Rightarrow> Inl err
                     | Inr (t, r) \<Rightarrow> Inr (x # t, r))))
      else if (of_char c :: nat) < 32 then Inl JSONDecodeError
      else
        (case scanstring cs of
           Inl err \<Rightarrow> Inl err
         | Inr (t, r) \<Rightarrow> Inr (c # t, r)))"

definition has_frac :: "string \<Rightarrow> bool" where
  "has_frac r = (case r of c # d # _ \<Rightarrow> c = CHR ''.'' \<and> is_digit d | _ \<Rightarrow> False)"

definition has_exp :: "string \<Rightarrow> bool" where
  "has_exp r =
     (case r of
        [] \<Rightarrow> False
      | c # cs \<Rightarrow>
          (c = CHR ''e'' \<or> c = CHR ''E'') \<and>
          (case cs of
             [] \<Rightarrow> False
           | d # ds \<Rightarrow>
               is_digit d \<or>
               ((d = CHR ''+'' \<or> d = CHR ''-'') \<and>
                (case ds of [] \<Rightarrow> False | x # _ \<Rightarrow> is_digit x))))"

text \<open>
  The number pattern \<^verbatim>\<open>(-?(?:0|[1-9]\d*))(\.\d+)?([eE][-+]?\d+)?\<close>; \<open>None\<close> when it does
  not match at the head of the input.
\<close>

definition match_number :: "string \<Rightarrow> (error + int \<times> string) option" where
  "match_number s =
     (let neg = (s \<noteq> [] \<and> hd s = CHR ''-'');
          r = (if neg then tl s else s)
      in case r of
           [] \<Rightarrow> None
         | c # cs \<Rightarrow>
             if is_digit c then
               (let ds = (if c = CHR ''0'' then [c] else takeWhile is_digit r);
                    r' = (if c = CHR ''0'' then cs else dropWhile is_digit r);
                    n = int (nat_of_digits ds)
                in if has_frac r' \<or> has_exp r' then Some (Inl OutsideModel)
                   else Some (Inr (if neg then - n else n, r')))
             else None)"

fun dict_setitem :: "(string \<times> 'v) list \<Rightarrow> string \<Rightarrow> 'v \<Rightarrow> (string \<times> 'v) list" where
  "dict_setitem [] k v = [(k, v)]"
| "dict_setitem (p # ps) k v = (if fst p = k then (k, v) # ps else p # dict_setitem ps k v)"

definition dict_update :: "(string \<times> 'v) list \<Rightarrow> (string \<times> 'v) list \<Rightarrow> (string \<times> 'v) list" where
  "dict_update d ps = foldl (\<lambda>d p. dict_setitem d (fst p) (snd p)) d ps"

text \<open>
  The scanner proper. Its first argument bounds the number of nested calls; \<open>loads\<close>
  starts it with more than any input of that length needs.
\<close>

fun scan_once :: "nat \<Rightarrow> string \<Rightarrow> error + json \<times> string"
  and scan_array :: "nat \<Rightarrow> string \<Rightarrow> error + json list \<times> string"
  and scan_object :: "nat \<Rightarrow> string \<Rightarrow> error + (string \<times> json) list \<times> string"
where
  "scan_once 0 s = Inl JSONDecodeError"
| "scan_once (Suc n) s =
     (case s of
        [] \<Rightarrow> Inl JSONDecodeError
      | c # cs \<Rightarrow>
          if c = CHR 0x22 then
            (case scanstring cs of Inl err \<Rightarrow> Inl err | Inr (t, r) \<Rightarrow> Inr (JStr t, r))
          else if c = CHR ''{'' then
            (case skip_ws cs of
               [] \<Rightarrow> Inl JSONDecodeError
             | d # ds \<Rightarrow>
                 if d = CHR ''}'' then Inr (JDict [], ds)
                 else (case scan_object n (d # ds) of
                         Inl err \<Rightarrow> Inl err
                       | Inr (ps, r) \<Rightarrow> Inr (JDict (dict_update [] ps), r)))
          else if c = CHR ''['' then
            (case skip_ws cs of
               [] \<Rightarrow> Inl JSONDecodeError
             | d # ds \<Rightarrow>
                 if d = CHR '']'' then Inr (JList [], ds)
                 else (case scan_array n (d # ds) of
                         Inl err \<Rightarrow> Inl err
                       | Inr (vs, r) \<Rightarrow> Inr (JList vs, r)))
          else if take 4 s = ''null'' then Inr (JNull, drop 4 s)
          else if take 4 s = ''true'' then Inr (JBool True, drop 4 s)
          else if take 5 s = ''false'' then Inr (JBool False, drop 5 s)
          else
            (case match_number s of
               Some (Inl err) \<Rightarrow> Inl err
             | Some (Inr (i, r)) \<Rightarrow> Inr (JInt i, r)
             | None \<Rightarrow>
                 if take 3 s = ''NaN'' \<or> take 8 s = ''Infinity'' \<or> take 9 s = ''-Infinity''
                 then Inl OutsideModel
                 else Inl JSONDecodeError))"
| "scan_array 0 s = Inl JSONDecodeError"
| "scan_array (Suc n) s =
     (case scan_once n s of
        Inl err \<Rightarrow> Inl err
      | Inr (v, r) \<Rightarrow>
          (case skip_ws r of
             [] \<Rightarrow> Inl JSONDecodeError
           | c # cs \<Rightarrow>
               if c = CHR '']'' then Inr ([v], cs)
               else if c = CHR '','' then
                 (case scan_array n (skip_ws cs) of
                    Inl err \<Rightarrow> Inl err
                  | Inr (vs, r') \<Rightarrow> Inr (v # vs, r'))
               else Inl JSONDecodeError))"
| "scan_object 0 s = Inl JSONDecodeError"
| "scan_object (Suc n) s =
     (case s of
        [] \<Rightarrow> Inl JSONDecodeError
      | q # cs \<Rightarrow>
          if q = CHR 0x22 then
            (case scanstring cs of
               Inl err \<Rightarrow> Inl err
             | Inr (k, r) \<Rightarrow>
                 (case skip_ws r of
                    [] \<Rightarrow> Inl JSONDecodeError
                  | c # r1 \<Rightarrow>
                      if c = CHR '':'' then
                        (case scan_once n (skip_ws r1) of
                           Inl err \<Rightarrow> Inl err
                         | Inr (v, r2) \<Rightarrow>
                             (case skip_ws r2 of
                                [] \<Rightarrow> Inl JSONDecodeError
                              | d # r3 \<Rightarrow>
                                  if d = CHR ''}'' then Inr ([(k, v)], r3)
                                  else if d = CHR '','' then
                                    (case scan_object n (skip_ws r3) of
                                       Inl err \<Rightarrow> Inl err
                                     | Inr (ps, r') \<Rightarrow> Inr ((k, v) # ps, r'))
                                  else Inl JSONDecodeError))
                      else Inl JSONDecodeError))
          else Inl JSONDecodeError)"

definition plain_byte :: "char \<Rightarrow> bool" where
  "plain_byte c = (0 < (of_char c :: nat) \<and> (of_char c :: nat) < 128)"

definition loads :: "string \<Rightarrow> error + json" where
  "loads s =
     (if list_all plain_byte s then
        (case scan_once (2 * length s + 1) (skip_ws s) of
           Inl err \<Rightarrow> Inl err
         | Inr (v, r) \<Rightarrow> if skip_ws r = [] then Inr v else Inl JSONDecodeError)
      else Inl OutsideModel)"

section \<open>MesosTaskParameters\<close>

text \<open>
  An object of the class is known by its address; the heap holds the \<^verbatim>\<open>__dict__\<close> of
  every object, so that two names for one dictionary are visible as such. Field values
  are JSON values.
\<close>

type_synonym pydict = "(string \<times> json) list"
type_synonym addr = nat
type_synonym heap = "pydict list"

definition field_names :: "string list" where
  "field_names =
     [''health'', ''mesos_task_state'', ''is_draining'', ''is_healthy'', ''offer'', ''resources'']"

definition dict_get :: "pydict \<Rightarrow> string \<Rightarrow> json" where
  "dict_get d k = (case map_of d k of None \<Rightarrow> JNull | Some v \<Rightarrow> v)"

text \<open>
  The call \<^verbatim>\<open>MesosTaskParameters(**kwargs)\<close>: a keyword that is not a parameter of
  \<^verbatim>\<open>__init__\<close> is a \<^verbatim>\<open>TypeError\<close>; a parameter without keyword is \<^verbatim>\<open>None\<close>.
\<close>

definition MesosTaskParameters_init :: "heap \<Rightarrow> pydict \<Rightarrow> heap \<times> (error + addr)" where
  "MesosTaskParameters_init h kwargs =
     (if list_all (\<lambda>k. k \<in> set field_names) (map fst kwargs)
      then (h @ [map (\<lambda>f. (f, dict_get kwargs f)) field_names], Inr (length h))
      else (h, Inl TypeError))"


definition setattr :: "heap \<Rightarrow> addr \<Rightarrow> string \<Rightarrow> json \<Rightarrow> heap \<times> (error + unit)" where
  "setattr h self name v = (h, Inl MesosTaskParametersIsImmutableError)"

definition delattr :: "heap \<Rightarrow> addr \<Rightarrow> string \<Rightarrow> heap \<times> (error + unit)" where
  "delattr h self name = (h, Inl MesosTaskParametersIsImmutableError)"

text \<open>
  \<^verbatim>\<open>new_dict = self.__dict__\<close> is a second name for the dictionary of \<open>self\<close>, so
  \<^verbatim>\<open>new_dict.update(kwargs)\<close> writes into the object at \<open>self\<close>.
\<close>

definition merge :: "heap \<Rightarrow> addr \<Rightarrow> pydict \<Rightarrow> heap \<times> (error + addr)" where
  "merge h self kwargs =
     (let h1 = h[self := dict_update (h ! self) kwargs]
      in MesosTaskParameters_init h1 (h1 ! self))"

definition serialize :: "heap \<Rightarrow> addr \<Rightarrow> string" where
  "serialize h self = dumps (JDict (h ! self))"

definition deserialize :: "heap \<Rightarrow> string \<Rightarrow> heap \<times> (error + addr)" where
  "deserialize h serialized_params =
     (case loads serialized_params of
        Inl err \<Rightarrow> (h, Inl err)
      | Inr (JDict d) \<Rightarrow> MesosTaskParameters_init h d
      | Inr _ \<Rightarrow> (h, Inl TypeError))"

section \<open>The coordination service\<close>

text \<open>
  Modelled from the spec: the client of the coordination service (\<^verbatim>\<open>KazooClient\<close>, a
  library outside the sources). Following sections 4.4 and 6 it is a table from paths
  below the chroot of the store to payloads: \<^verbatim>\<open>get\<close> and \<^verbatim>\<open>set\<close> fail with
  \<^verbatim>\<open>NoNodeError\<close> on a path that is not there, \<^verbatim>\<open>create\<close> adds a path, and
  \<^verbatim>\<open>get_children('/')\<close> lists the names of the nodes directly below the root.
\<close>

type_synonym znodes = "(string \<times> string) list"

definition zk_get :: "znodes \<Rightarrow> string \<Rightarrow> error + string" where
  "zk_get z path = (case map_of z path of None \<Rightarrow> Inl NoNodeError | Some data \<Rightarrow> Inr data)"

definition zk_set :: "znodes \<Rightarrow> string \<Rightarrow> string \<Rightarrow> error + znodes" where
  "zk_set z path data =
     (case map_of z path of
        None \<Rightarrow> Inl NoNodeError
      | Some old \<Rightarrow> Inr (dict_setitem z path data))"

definition zk_create :: "znodes \<Rightarrow> string \<Rightarrow> string \<Rightarrow> error + znodes" where
  "zk_create z path data =
     (case map_of z path of
        None \<Rightarrow> Inr (dict_setitem z path data)
      | Some old \<Rightarrow> Inl NodeExistsError)"



section \<open>The task stores\<close>

datatype task_store =
    DictTaskStore (tasks: "(string \<times> addr) list")
  | ZKTaskStore (zk_client: znodes)

text \<open>
  The state that the operations of a store read and write: the heap of parameter
  objects, the store itself, and what has been logged (the task and the payload of each
  warning).
\<close>

record state =
  heap :: heap
  store :: task_store
  logged :: "(string \<times> string) list"

definition zk_path_from_task_id :: "string \<Rightarrow> string" where
  "zk_path_from_task_id task_id = CHR ''/'' # task_id"


text \<open>
  Modelled from the spec: \<^verbatim>\<open>_log\<close> of \<^verbatim>\<open>paasta_tools.utils\<close>, which is not among the
  sources. Section 4.4 has \<^verbatim>\<open>get_task\<close> log a diagnostic; the model keeps the task and
  the payload that the line is made of.
\<close>

definition log_warning :: "state \<Rightarrow> string \<Rightarrow> string \<Rightarrow> state" where
  "log_warning s task_id data = s\<lparr>logged := logged s @ [(task_id, data)]\<rparr>"

definition get_task :: "state \<Rightarrow> string \<Rightarrow> state \<times> (error + addr option)" where
  "get_task s task_id =
     (case store s of
        DictTaskStore ts \<Rightarrow> (s, Inr (map_of ts task_id))
      | ZKTaskStore z \<Rightarrow>
          (case zk_get z (CHR ''/'' # task_id) of
             Inl err \<Rightarrow> if err = NoNodeError then (s, Inr None) else (s, Inl err)
           | Inr data \<Rightarrow>
               (case deserialize (heap s) data of
                  (h, Inr params) \<Rightarrow> (s\<lparr>heap := h\<rparr>, Inr (Some params))
                | (h, Inl err) \<Rightarrow>
                    if err = NoNodeError then (s\<lparr>heap := h\<rparr>, Inr None)
                    else if err = JSONDecodeError then
                      (log_warning (s\<lparr>heap := h\<rparr>) task_id data, Inr None)
                    else (s\<lparr>heap := h\<rparr>, Inl err))))"



definition overwrite_task :: "state \<Rightarrow> string \<Rightarrow> addr \<Rightarrow> state \<times> (error + unit)" where
  "overwrite_task s task_id params =
     (case store s of
        DictTaskStore ts \<Rightarrow>
          (case deserialize (heap s) (serialize (heap s) params) of
             (h, Inl err) \<Rightarrow> (s\<lparr>heap := h\<rparr>, Inl err)
           | (h, Inr copy) \<Rightarrow>
               (s\<lparr>heap := h, store := DictTaskStore (dict_setitem ts task_id copy)\<rparr>, Inr ()))
      | ZKTaskStore z \<Rightarrow>
          (case zk_set z (zk_path_from_task_id task_id) (serialize (heap s) params) of
             Inr z' \<Rightarrow> (s\<lparr>store := ZKTaskStore z'\<rparr>, Inr ())
           | Inl err \<Rightarrow>
               if err = NoNodeError then
                 (case zk_create z (zk_path_from_task_id task_id) (serialize (heap s) params) of
                    Inr z' \<Rightarrow> (s\<lparr>store := ZKTaskStore z'\<rparr>, Inr ())
                  | Inl err' \<Rightarrow> (s, Inl err'))
               else (s, Inl err)))"

definition add_task_if_doesnt_exist :: "state \<Rightarrow> string \<Rightarrow> pydict \<Rightarrow> state \<times> (error + unit)" where
  "add_task_if_doesnt_exist s task_id kwargs =
     (case get_task s task_id of
        (s1, Inl err) \<Rightarrow> (s1, Inl err)
      | (s1, Inr (Some existing)) \<Rightarrow> (s1, Inr ())
      | (s1, Inr None) \<Rightarrow>
          (case MesosTaskParameters_init (heap s1) kwargs of
             (h, Inl err) \<Rightarrow> (s1\<lparr>heap := h\<rparr>, Inl err)
           | (h, Inr params) \<Rightarrow> overwrite_task (s1\<lparr>heap := h\<rparr>) task_id params))"

definition update_task :: "state \<Rightarrow> string \<Rightarrow> pydict \<Rightarrow> state \<times> (error + addr)" where
  "update_task s task_id kwargs =
     (case get_task s task_id of
        (s1, Inl err) \<Rightarrow> (s1, Inl err)
      | (s1, Inr existing_task) \<Rightarrow>
          (case (case existing_task of
                   Some existing \<Rightarrow> merge (heap s1) existing kwargs
                 | None \<Rightarrow> MesosTaskParameters_init (heap s1) kwargs) of
             (h, Inl err) \<Rightarrow> (s1\<lparr>heap := h\<rparr>, Inl err)
           | (h, Inr merged_params) \<Rightarrow>
               (case overwrite_task (s1\<lparr>heap := h\<rparr>) task_id merged_params of
                  (s2, Inl err) \<Rightarrow> (s2, Inl err)
                | (s2, Inr u) \<Rightarrow> (s2, Inr merged_params))))"

definition garbage_collect_old_tasks :: "state \<Rightarrow> nat \<Rightarrow> state \<times> (error + unit)" where
  "garbage_collect_old_tasks s max_dead_task_age = (s, Inl NotImplementedError)"

section \<open>Well-formed values\<close>

text \<open>
  A Python dictionary has each key once. \<open>wf_json\<close> says so of every dictionary inside a
  value; it holds of every value that a Python program can build.
\<close>

fun wf_json :: "json \<Rightarrow> bool" where
  "wf_json (JList vs) = list_all wf_json vs"
| "wf_json (JDict ps) = (distinct (map fst ps) \<and> list_all (\<lambda>p. wf_json (snd p)) ps)"
| "wf_json v = True"

text \<open>Auxiliary notions for the proofs about the scanner.\<close>

definition number_end :: "string \<Rightarrow> bool" where
  "number_end r =
     (case r of
        [] \<Rightarrow> True
      | c # cs \<Rightarrow> \<not> is_digit c \<and> c \<noteq> CHR ''.'' \<and> c \<noteq> CHR ''e'' \<and> c \<noteq> CHR ''E'')"

definition value_start :: "char \<Rightarrow> bool" where
  "value_start c =
     (c = CHR ''-'' \<or> is_digit c \<or> c = CHR 0x22 \<or> c = CHR ''['' \<or> c = CHR ''{''
      \<or> c = CHR ''n'' \<or> c = CHR ''t'' \<or> c = CHR ''f'')"

definition dumps_pair :: "string \<times> json \<Rightarrow> string" where
  "dumps_pair p = encode_basestring_ascii (fst p) @ '': '' @ dumps (snd p)"

definition scans :: "json \<Rightarrow> bool" where
  "scans v =
     (\<forall>n r. number_end r \<longrightarrow> 2 * length (dumps v) \<le> n \<longrightarrow>
        scan_once n (dumps v @ r) = Inr (v, r))"

text \<open>
  What \<^verbatim>\<open>__init__\<close> stores for the keywords \<open>kwargs\<close>, and the dictionaries of the
  objects it builds from well-formed values: the six fields in the order of the
  assignments, each with a well-formed value.
\<close>

definition init_dict :: "pydict \<Rightarrow> pydict" where
  "init_dict kwargs = map (\<lambda>f. (f, dict_get kwargs f)) field_names"

definition wf_values :: "pydict \<Rightarrow> bool" where
  "wf_values d = list_all (\<lambda>p. wf_json (snd p)) d"

definition params_dict :: "pydict \<Rightarrow> bool" where
  "params_dict d = (map fst d = field_names \<and> wf_values d)"

definition known_field :: "string \<Rightarrow> bool" where
  "known_field k = (k \<in> set field_names)"

text \<open>A task that the store holds nothing for: no key of the table, no node at its path.\<close>

definition no_entry :: "state \<Rightarrow> string \<Rightarrow> bool" where
  "no_entry s task_id =
     (case store s of
        DictTaskStore ts \<Rightarrow> task_id \<notin> fst ` set ts
      | ZKTaskStore z \<Rightarrow> zk_path_from_task_id task_id \<notin> fst ` set z)"


text \<open>
  The in-memory table holds references. \<open>store_ok\<close> says that each of them is an object
  of the heap with the six fields and well-formed values, as \<^verbatim>\<open>overwrite_task\<close> stores
  them. \<open>valid_kwargs\<close> describes keywords for some of the six fields.
\<close>

definition store_ok :: "state \<Rightarrow> bool" where
  "store_ok s =
     (case store s of
        DictTaskStore ts \<Rightarrow>
          list_all (\<lambda>e. snd e < length (heap s) \<and> params_dict (heap s ! snd e)) ts
      | ZKTaskStore z \<Rightarrow> True)"

definition valid_kwargs :: "pydict \<Rightarrow> bool" where
  "valid_kwargs kwargs =
     (distinct (map fst kwargs) \<and> list_all known_field (map fst kwargs) \<and> wf_values kwargs)"

section \<open>Decoding what was encoded\<close>

subsection \<open>Strings\<close>

lemma hexval_hexdigit: "k < 16 \<Longrightarrow> hexval (hexdigit k) = Some k"
proof -
  assume "k < 16"
  then have "k = 0 \<or> k = 1 \<or> k = 2 \<or> k = 3 \<or> k = 4 \<or> k = 5 \<or> k = 6 \<or> k = 7
      \<or> k = 8 \<or> k = 9 \<or> k = 10 \<or> k = 11 \<or> k = 12 \<or> k = 13 \<or> k = 14 \<or> k = 15"
    by arith
  then show ?thesis
    by (elim disjE) (simp_all add: hexdigit_def hexval_def)
qed

lemma decode_uXXXX_escape:
  "decode_uXXXX (CHR ''0'' # CHR ''0'' # hexdigit (of_char c div 16) # hexdigit (of_char c mod 16) # r)
     = Some (of_char c)"
proof -
  have a: "(of_char c :: nat) div 16 < 16"
    using nat_of_char_less_256 [of c] by (simp add: less_mult_imp_div_less)
  have b: "(of_char c :: nat) mod 16 < 16" by simp
  show ?thesis
    by (simp add: decode_uXXXX_def hexval_hexdigit [OF a] hexval_hexdigit [OF b])
       (simp add: hexval_def)
qed

lemma scanstring_escape_char:
  "scanstring (escape_char c @ r) =
     (case scanstring r of Inl err \<Rightarrow> Inl err | Inr (t, r') \<Rightarrow> Inr (c # t, r'))"
proof -
  have lt: "(of_char c :: nat) < 256" by (rule nat_of_char_less_256)
  show ?thesis
    by (simp add: escape_char_def unescape_def decode_uXXXX_escape lt split: sum.splits)
qed

lemma scanstring_encoded:
  "scanstring (concat (map escape_char s) @ CHR 0x22 # r) = Inr (s, r)"
  by (induction s) (simp_all add: scanstring_escape_char)

subsection \<open>Integers\<close>

lemma digit_char:
  assumes "d < 10"
  shows "is_digit (''0123456789'' ! d) \<and> (of_char (''0123456789'' ! d) :: nat) - 48 = d
    \<and> (0 < d \<longrightarrow> ''0123456789'' ! d \<noteq> CHR ''0'')"
proof -
  from assms have "d = 0 \<or> d = 1 \<or> d = 2 \<or> d = 3 \<or> d = 4 \<or> d = 5 \<or> d = 6 \<or> d = 7 \<or> d = 8 \<or> d = 9"
    by arith
  then show ?thesis
    by (elim disjE) (simp_all add: is_digit_def)
qed

lemma digits_nonempty: "digits n \<noteq> []"
  by (subst digits.simps) simp

lemma digits_all_digit: "\<forall>c \<in> set (digits n). is_digit c"
proof (induction n rule: digits.induct)
  case (1 n)
  show ?case
  proof (cases "n < 10")
    case True
    then show ?thesis by (subst digits.simps) (simp add: digit_char)
  next
    case False
    then show ?thesis using "1" by (subst digits.simps) (simp add: digit_char)
  qed
qed

lemma nat_of_digits_snoc:
  "nat_of_digits (ds @ [c]) = 10 * nat_of_digits ds + (of_char c - 48)"
  by (simp add: nat_of_digits_def)

lemma nat_of_digits_digits: "nat_of_digits (digits n) = n"
proof (induction n rule: digits.induct)
  case (1 n)
  show ?case
  proof (cases "n < 10")
    case True
    then show ?thesis by (subst digits.simps) (simp add: nat_of_digits_def digit_char)
  next
    case False
    then have "nat_of_digits (digits (n div 10)) = n div 10" using "1" by simp
    with False show ?thesis
      by (subst digits.simps) (simp add: nat_of_digits_snoc digit_char)
  qed
qed

lemma hd_digits_nonzero: "0 < n \<Longrightarrow> hd (digits n) \<noteq> CHR ''0''"
proof (induction n rule: digits.induct)
  case (1 n)
  show ?case
  proof (cases "n < 10")
    case True
    with "1.prems" have "''0123456789'' ! n \<noteq> CHR ''0''"
      using digit_char [of n] by blast
    with True show ?thesis by (subst digits.simps) simp
  next
    case False
    then have "hd (digits (n div 10)) \<noteq> CHR ''0''" using "1.IH" by simp
    with False show ?thesis
      by (subst digits.simps) (simp add: digits_nonempty)
  qed
qed

lemma digits_zero: "digits 0 = ''0''"
  by (subst digits.simps) simp

lemma number_end_no_float: "number_end r \<Longrightarrow> \<not> has_frac r \<and> \<not> has_exp r"
  by (cases r) (auto simp: number_end_def has_frac_def has_exp_def split: list.splits)

lemma takeWhile_digits: "number_end r \<Longrightarrow> takeWhile is_digit (digits n @ r) = digits n"
  using digits_all_digit [of n]
  by (cases r) (simp_all add: number_end_def)

lemma dropWhile_digits: "number_end r \<Longrightarrow> dropWhile is_digit (digits n @ r) = r"
  using digits_all_digit [of n]
  by (cases r) (simp_all add: number_end_def)

lemma match_number_digits:
  assumes "number_end r"
  shows "match_number (digits n @ r) = Some (Inr (int n, r))"
    and "0 < n \<Longrightarrow> match_number (CHR ''-'' # digits n @ r) = Some (Inr (- int n, r))"
proof -
  obtain c cs where d: "digits n = c # cs"
    using digits_nonempty [of n] by (cases "digits n") auto
  have cd: "is_digit c" using digits_all_digit [of n] d by simp
  have cm: "c \<noteq> CHR ''-''" using cd by (auto simp: is_digit_def)
  have t: "takeWhile is_digit (c # cs @ r) = c # cs"
    using takeWhile_digits [OF assms, of n] d by simp
  have dr: "dropWhile is_digit (c # cs @ r) = r"
    using dropWhile_digits [OF assms, of n] d by simp
  have v: "nat_of_digits (c # cs) = n" using nat_of_digits_digits [of n] d by simp
  have z: "c = CHR ''0'' \<Longrightarrow> n = 0 \<and> cs = []"
    using hd_digits_nonzero [of n] d digits_zero by (cases "n = 0") auto
  have z0: "nat_of_digits ''0'' = 0" by (simp add: nat_of_digits_def)
  note nf = number_end_no_float [OF assms]
  show "match_number (digits n @ r) = Some (Inr (int n, r))"
    unfolding match_number_def d using cd cm t dr v z z0 nf by (auto simp: Let_def)
  show "match_number (CHR ''-'' # digits n @ r) = Some (Inr (- int n, r))" if "0 < n"
  proof -
    have "c \<noteq> CHR ''0''" using hd_digits_nonzero [OF that] d by simp
    then show ?thesis
      unfolding match_number_def d using cd t dr v nf by (simp add: Let_def)
  qed
qed

lemma match_number_int_repr:
  assumes "number_end r"
  shows "match_number (int_repr i @ r) = Some (Inr (i, r))"
proof (cases "i < 0")
  case True
  then show ?thesis
    using match_number_digits(2) [OF assms, of "nat (- i)"] by (simp add: int_repr_def)
next
  case False
  then show ?thesis
    using match_number_digits(1) [OF assms, of "nat i"] by (simp add: int_repr_def)
qed

lemma int_repr_head:
  "\<exists>c cs. int_repr i = c # cs \<and> (c = CHR ''-'' \<or> is_digit c)"
proof (cases "i < 0")
  case True
  then show ?thesis by (simp add: int_repr_def)
next
  case False
  obtain c cs where d: "digits (nat i) = c # cs"
    using digits_nonempty [of "nat i"] by (cases "digits (nat i)") auto
  have "is_digit c" using digits_all_digit [of "nat i"] d by simp
  with False d show ?thesis by (simp add: int_repr_def)
qed

subsection \<open>Values\<close>

lemma value_start_facts:
  "value_start c \<Longrightarrow>
     \<not> is_ws c \<and> c \<noteq> CHR '']'' \<and> c \<noteq> CHR ''}'' \<and> c \<noteq> CHR '','' \<and> c \<noteq> CHR '':''"
  by (auto simp: value_start_def is_ws_def is_digit_def)

lemma dumps_head: "\<exists>c cs. dumps v = c # cs \<and> value_start c"
proof (cases v)
  case (JInt i)
  then show ?thesis using int_repr_head [of i] by (auto simp: value_start_def)
qed (auto simp: value_start_def encode_basestring_ascii_def)

lemma join_Cons: "xs \<noteq> [] \<Longrightarrow> join sep (x # xs) = x @ sep @ join sep xs"
  by (cases xs) simp_all

lemma skip_ws_start: "value_start c \<Longrightarrow> skip_ws (c # cs) = c # cs"
  using value_start_facts [of c] by (simp add: skip_ws_def)

lemma skip_ws_dumps: "skip_ws (dumps v @ r) = dumps v @ r"
  using dumps_head [of v] by (auto simp: skip_ws_start)

lemma number_end_facts:
  "number_end []" "number_end (CHR '','' # r)" "number_end (CHR '']'' # r)"
  "number_end (CHR ''}'' # r)"
  by (simp_all add: number_end_def is_digit_def)

lemma dict_setitem_fresh: "k \<notin> fst ` set d \<Longrightarrow> dict_setitem d k v = d @ [(k, v)]"
  by (induction d) auto

lemma dict_update_distinct:
  "distinct (map fst (d @ ps)) \<Longrightarrow> dict_update d ps = d @ ps"
proof (induction ps arbitrary: d)
  case Nil
  then show ?case by (simp add: dict_update_def)
next
  case (Cons p ps)
  have "dict_setitem d (fst p) (snd p) = d @ [p]"
    using Cons.prems by (simp add: dict_setitem_fresh)
  moreover have "distinct (map fst ((d @ [p]) @ ps))" using Cons.prems by simp
  ultimately show ?case using Cons.IH [of "d @ [p]"] by (simp add: dict_update_def)
qed

lemma scan_once_int:
  assumes "number_end r"
  shows "scan_once (Suc n) (int_repr i @ r) = Inr (JInt i, r)"
proof -
  obtain c cs where h: "int_repr i = c # cs" "c = CHR ''-'' \<or> is_digit c"
    using int_repr_head [of i] by blast
  have ne: "c \<noteq> CHR 0x22 \<and> c \<noteq> CHR ''{'' \<and> c \<noteq> CHR ''['' \<and> c \<noteq> CHR ''n'' \<and> c \<noteq> CHR ''t''
      \<and> c \<noteq> CHR ''f''"
    using h(2) by (auto simp: is_digit_def)
  have "match_number (c # cs @ r) = Some (Inr (i, r))"
    using match_number_int_repr [OF assms, of i] h(1) by simp
  then show ?thesis using ne h(1) by simp
qed

lemma scan_once_str:
  "scan_once (Suc n) (encode_basestring_ascii s @ r) = Inr (JStr s, r)"
  by (simp add: encode_basestring_ascii_def scanstring_encoded)

lemma scansD:
  "scans v \<Longrightarrow> number_end r \<Longrightarrow> 2 * length (dumps v) \<le> n \<Longrightarrow>
     scan_once n (dumps v @ r) = Inr (v, r)"
  by (simp add: scans_def)

lemma scan_array_joined:
  assumes "vs \<noteq> []" "\<forall>v \<in> set vs. scans v"
    and "2 * length (join '', '' (map dumps vs)) + 1 \<le> m"
  shows "scan_array m (join '', '' (map dumps vs) @ CHR '']'' # r) = Inr (vs, r)"
  using assms
proof (induction vs arbitrary: m rule: list_nonempty_induct)
  case (single v)
  then obtain k where m: "m = Suc k" by (cases m) auto
  have sv: "scans v" using single by simp
  have le: "2 * length (dumps v) \<le> k" using single(2) m by simp
  have "scan_once k (dumps v @ CHR '']'' # r) = Inr (v, CHR '']'' # r)"
    by (rule scansD [OF sv _ le]) (rule number_end_facts)
  then show ?case by (simp add: m skip_ws_def is_ws_def)
next
  case (cons v vs)
  then obtain k where m: "m = Suc k" by (cases m) auto
  let ?tail = "join '', '' (map dumps vs) @ CHR '']'' # r"
  have j: "join '', '' (dumps v # map dumps vs) = dumps v @ '', '' @ join '', '' (map dumps vs)"
    using cons.hyps by (simp add: join_Cons)
  have sv: "scans v" using cons.prems by simp
  have le: "2 * length (dumps v) \<le> k" using cons.prems(2) m j by simp
  have v: "scan_once k (dumps v @ CHR '','' # CHR '' '' # ?tail) = Inr (v, CHR '','' # CHR '' '' # ?tail)"
    by (rule scansD [OF sv _ le]) (rule number_end_facts)
  obtain c cs where h: "join '', '' (map dumps vs) = c # cs" "value_start c"
    using cons.hyps dumps_head [of "hd vs"] by (cases vs; cases "tl vs") auto
  have sk: "skip_ws (CHR '' '' # ?tail) = ?tail"
    using h skip_ws_start [of c] by (simp add: skip_ws_def is_ws_def)
  have rest: "scan_array k ?tail = Inr (vs, r)"
    using cons.IH [of k] cons.prems m j by simp
  show ?case
    using v sk rest by (simp add: m j skip_ws_def is_ws_def)
qed

lemma dumps_pair_head: "\<exists>cs. dumps_pair p = CHR 0x22 # cs"
  by (simp add: dumps_pair_def encode_basestring_ascii_def)

lemma scan_object_step:
  assumes "scan_once k (dumps v @ rest) = Inr (v, rest)"
  shows "scan_object (Suc k) (dumps_pair (key, v) @ rest) =
     (case skip_ws rest of
        [] \<Rightarrow> Inl JSONDecodeError
      | d # r3 \<Rightarrow>
          if d = CHR ''}'' then Inr ([(key, v)], r3)
          else if d = CHR '','' then
            (case scan_object k (skip_ws r3) of
               Inl err \<Rightarrow> Inl err
             | Inr (ps, r') \<Rightarrow> Inr ((key, v) # ps, r'))
          else Inl JSONDecodeError)"
proof -
  have sk: "skip_ws (CHR '' '' # dumps v @ rest) = dumps v @ rest"
    using skip_ws_dumps [of v rest] by (simp add: skip_ws_def is_ws_def)
  have c: "skip_ws (CHR '':'' # CHR '' '' # dumps v @ rest) = CHR '':'' # CHR '' '' # dumps v @ rest"
    by (simp add: skip_ws_def is_ws_def)
  have s: "scanstring (concat (map escape_char key) @ CHR 0x22 # CHR '':'' # CHR '' '' # dumps v @ rest)
      = Inr (key, CHR '':'' # CHR '' '' # dumps v @ rest)"
    by (rule scanstring_encoded)
  show ?thesis
    by (simp add: dumps_pair_def encode_basestring_ascii_def s c sk assms)
qed

lemma scan_object_joined:
  assumes "ps \<noteq> []" "\<forall>p \<in> set ps. scans (snd p)"
    and "2 * length (join '', '' (map dumps_pair ps)) + 1 \<le> m"
  shows "scan_object m (join '', '' (map dumps_pair ps) @ CHR ''}'' # r) = Inr (ps, r)"
  using assms
proof (induction ps arbitrary: m rule: list_nonempty_induct)
  case (single p)
  then obtain k where m: "m = Suc k" by (cases m) auto
  have sp: "scans (snd p)" using single by simp
  have "length (dumps (snd p)) \<le> length (dumps_pair p)" by (simp add: dumps_pair_def)
  then have le: "2 * length (dumps (snd p)) \<le> k" using single(2) m by simp
  have "scan_once k (dumps (snd p) @ CHR ''}'' # r) = Inr (snd p, CHR ''}'' # r)"
    by (rule scansD [OF sp _ le]) (rule number_end_facts)
  from scan_object_step [OF this, of "fst p"] show ?case
    by (simp add: m skip_ws_def is_ws_def)
next
  case (cons p ps)
  then obtain k where m: "m = Suc k" by (cases m) auto
  let ?tail = "join '', '' (map dumps_pair ps) @ CHR ''}'' # r"
  have j: "join '', '' (dumps_pair p # map dumps_pair ps)
      = dumps_pair p @ '', '' @ join '', '' (map dumps_pair ps)"
    using cons.hyps by (simp add: join_Cons)
  have sp: "scans (snd p)" using cons.prems by simp
  have "length (dumps (snd p)) \<le> length (dumps_pair p)" by (simp add: dumps_pair_def)
  then have le: "2 * length (dumps (snd p)) \<le> k" using cons.prems(2) m j by simp
  have v: "scan_once k (dumps (snd p) @ CHR '','' # CHR '' '' # ?tail)
      = Inr (snd p, CHR '','' # CHR '' '' # ?tail)"
    by (rule scansD [OF sp _ le]) (rule number_end_facts)
  obtain cs where h: "join '', '' (map dumps_pair ps) = CHR 0x22 # cs"
    using cons.hyps dumps_pair_head [of "hd ps"] by (cases ps; cases "tl ps") auto
  have sk: "skip_ws (CHR '' '' # ?tail) = ?tail"
    by (simp add: h skip_ws_def is_ws_def)
  have rest: "scan_object k ?tail = Inr (ps, r)"
    using cons.IH [of k] cons.prems m j by simp
  have w: "skip_ws (CHR '','' # CHR '' '' # ?tail) = CHR '','' # CHR '' '' # ?tail"
    by (simp add: skip_ws_def is_ws_def)
  have "scan_object (Suc k) (dumps_pair (fst p, snd p) @ CHR '','' # CHR '' '' # ?tail)
      = Inr (p # ps, r)"
    unfolding scan_object_step [OF v, of "fst p"] w by (simp add: sk rest)
  then show ?case by (simp add: m j)
qed

lemma dumps_JDict: "dumps (JDict ps) = ''{'' @ join '', '' (map dumps_pair ps) @ ''}''"
  by (simp add: dumps_pair_def [abs_def])

lemma scans_all: "wf_json v \<Longrightarrow> scans v"
proof (induction v)
  case JNull
  show ?case unfolding scans_def
  proof (intro allI impI)
    fix n r assume "2 * length (dumps JNull) \<le> n"
    then obtain k where "n = Suc k" by (cases n) auto
    then show "scan_once n (dumps JNull @ r) = Inr (JNull, r)" by simp
  qed
next
  case (JBool b)
  show ?case unfolding scans_def
  proof (intro allI impI)
    fix n r assume "2 * length (dumps (JBool b)) \<le> n"
    then obtain k where "n = Suc k" by (cases n; cases b) auto
    then show "scan_once n (dumps (JBool b) @ r) = Inr (JBool b, r)" by simp
  qed
next
  case (JInt i)
  show ?case unfolding scans_def
  proof (intro allI impI)
    fix n r assume ne: "number_end r" and "2 * length (dumps (JInt i)) \<le> n"
    then obtain k where "n = Suc k" using int_repr_head [of i] by (cases n) auto
    then show "scan_once n (dumps (JInt i) @ r) = Inr (JInt i, r)"
      using scan_once_int [OF ne] by simp
  qed
next
  case (JStr s)
  show ?case unfolding scans_def
  proof (intro allI impI)
    fix n r assume "2 * length (dumps (JStr s)) \<le> n"
    then obtain k where "n = Suc k" by (cases n) (auto simp: encode_basestring_ascii_def)
    then show "scan_once n (dumps (JStr s) @ r) = Inr (JStr s, r)"
      using scan_once_str by simp
  qed
next
  case (JList vs)
  have all: "\<forall>v \<in> set vs. scans v"
    using JList by (simp add: list_all_iff)
  show ?case unfolding scans_def
  proof (intro allI impI)
    fix n r assume len: "2 * length (dumps (JList vs)) \<le> n"
    then obtain k where n: "n = Suc k" by (cases n) auto
    show "scan_once n (dumps (JList vs) @ r) = Inr (JList vs, r)"
    proof (cases "vs = []")
      case True
      then show ?thesis by (simp add: n skip_ws_def is_ws_def)
    next
      case False
      let ?body = "join '', '' (map dumps vs)"
      obtain c cs where h: "?body = c # cs" "value_start c"
        using False dumps_head [of "hd vs"] by (cases vs; cases "tl vs") auto
      have "2 * length ?body + 1 \<le> k" using len n by simp
      then have "scan_array k (?body @ CHR '']'' # r) = Inr (vs, r)"
        by (rule scan_array_joined [OF False all])
      then show ?thesis
        using h value_start_facts [of c] by (simp add: n skip_ws_def)
    qed
  qed
next
  case (JDict ps)
  have all: "\<forall>p \<in> set ps. scans (snd p)"
    using JDict by (auto simp: list_all_iff snds.simps)
  have d: "dict_update [] ps = ps"
    using JDict.prems dict_update_distinct [of "[]" ps] by simp
  show ?case unfolding scans_def
  proof (intro allI impI)
    fix n r assume len: "2 * length (dumps (JDict ps)) \<le> n"
    then obtain k where n: "n = Suc k" by (cases n) auto
    show "scan_once n (dumps (JDict ps) @ r) = Inr (JDict ps, r)"
    proof (cases "ps = []")
      case True
      then show ?thesis by (simp add: n skip_ws_def is_ws_def)
    next
      case False
      let ?body = "join '', '' (map dumps_pair ps)"
      obtain cs where h: "?body = CHR 0x22 # cs"
        using False dumps_pair_head [of "hd ps"] by (cases ps; cases "tl ps") auto
      have "2 * length (''{'' @ ?body @ ''}'') \<le> n"
        using len by (simp only: dumps_JDict)
      then have "2 * length ?body + 1 \<le> k" using n by simp
      then have "scan_object k (?body @ CHR ''}'' # r) = Inr (ps, r)"
        by (rule scan_object_joined [OF False all])
      then show ?thesis
        using h d by (simp add: n dumps_JDict skip_ws_def is_ws_def del: dumps.simps)
    qed
  qed
qed

subsection \<open>Round trip\<close>

lemma set_join: "set (join sep xs) \<subseteq> set sep \<union> \<Union> (set ` set xs)"
  by (induction sep xs rule: join.induct) auto

lemma plain_hexdigit: "k < 16 \<Longrightarrow> plain_byte (hexdigit k)"
proof -
  assume "k < 16"
  then have "k = 0 \<or> k = 1 \<or> k = 2 \<or> k = 3 \<or> k = 4 \<or> k = 5 \<or> k = 6 \<or> k = 7
      \<or> k = 8 \<or> k = 9 \<or> k = 10 \<or> k = 11 \<or> k = 12 \<or> k = 13 \<or> k = 14 \<or> k = 15"
    by arith
  then show ?thesis
    by (elim disjE) (simp_all add: hexdigit_def plain_byte_def)
qed

lemma plain_escape_char: "c' \<in> set (escape_char c) \<Longrightarrow> plain_byte c'"
proof -
  have a: "(of_char c :: nat) div 16 < 16"
    using nat_of_char_less_256 [of c] by (simp add: less_mult_imp_div_less)
  have b: "(of_char c :: nat) mod 16 < 16" by simp
  assume "c' \<in> set (escape_char c)"
  then show ?thesis
    using plain_hexdigit [OF a] plain_hexdigit [OF b]
    by (auto simp: escape_char_def plain_byte_def split: if_splits)
qed

lemma plain_encode_basestring_ascii:
  "c \<in> set (encode_basestring_ascii s) \<Longrightarrow> plain_byte c"
  by (auto simp: encode_basestring_ascii_def plain_byte_def dest: plain_escape_char)

lemma plain_int_repr: "c \<in> set (int_repr i) \<Longrightarrow> plain_byte c"
  using digits_all_digit [of "nat i"] digits_all_digit [of "nat (- i)"]
  by (auto simp: int_repr_def is_digit_def plain_byte_def split: if_splits)

lemma plain_dumps: "c \<in> set (dumps v) \<Longrightarrow> plain_byte c"
proof (induction v arbitrary: c)
  case (JList vs)
  from JList.prems have "c \<in> set ''[]'' \<or> c \<in> set (join '', '' (map dumps vs))" by auto
  then show ?case
  proof
    assume "c \<in> set ''[]''"
    then show ?thesis by (auto simp: plain_byte_def)
  next
    assume "c \<in> set (join '', '' (map dumps vs))"
    then have "c \<in> set '', '' \<or> (\<exists>v \<in> set vs. c \<in> set (dumps v))"
      using set_join [of "'', ''" "map dumps vs"] by auto
    then show ?thesis using JList.IH by (auto simp: plain_byte_def)
  qed
next
  case (JDict ps)
  from JDict.prems have "c \<in> set ''{}'' \<or> c \<in> set (join '', '' (map dumps_pair ps))"
    by (auto simp: dumps_JDict simp del: dumps.simps)
  then show ?case
  proof
    assume "c \<in> set ''{}''"
    then show ?thesis by (auto simp: plain_byte_def)
  next
    assume "c \<in> set (join '', '' (map dumps_pair ps))"
    then have "c \<in> set '', '' \<or> (\<exists>p \<in> set ps. c \<in> set (dumps_pair p))"
      using set_join [of "'', ''" "map dumps_pair ps"] by auto
    then show ?thesis
    proof
      assume "c \<in> set '', ''"
      then show ?thesis by (auto simp: plain_byte_def)
    next
      assume "\<exists>p \<in> set ps. c \<in> set (dumps_pair p)"
      then obtain p where p: "p \<in> set ps" "c \<in> set (dumps_pair p)" by blast
      then have "c \<in> set (encode_basestring_ascii (fst p)) \<or> c \<in> set '': ''
          \<or> c \<in> set (dumps (snd p))"
        by (auto simp: dumps_pair_def)
      moreover have "c \<in> set (dumps (snd p)) \<Longrightarrow> plain_byte c"
        using JDict.IH [of p "snd p" c] p(1) by (cases p) (auto simp: snds.simps)
      ultimately show ?thesis
        by (auto simp: plain_byte_def dest: plain_encode_basestring_ascii)
    qed
  qed
qed (auto simp: plain_byte_def dest: plain_encode_basestring_ascii plain_int_repr split: if_splits)

lemma loads_dumps: "wf_json v \<Longrightarrow> loads (dumps v) = Inr v"
proof -
  assume "wf_json v"
  then have "scans v" by (rule scans_all)
  then have "scan_once (2 * length (dumps v) + 1) (dumps v @ []) = Inr (v, [])"
    by (rule scansD) (simp_all add: number_end_facts)
  moreover have "skip_ws (dumps v) = dumps v"
    using skip_ws_dumps [of v "[]"] by simp
  ultimately have a: "scan_once (2 * length (dumps v) + 1) (skip_ws (dumps v)) = Inr (v, [])"
    by (simp only: append_Nil2)
  have p: "list_all plain_byte (dumps v)"
    by (simp add: list_all_iff plain_dumps)
  show ?thesis unfolding loads_def a using p by (simp add: skip_ws_def)
qed

section \<open>Immutability\<close>

text \<open>
  C7. Every attempt to set or delete an attribute of a \<^verbatim>\<open>MesosTaskParameters\<close> object
  raises \<^verbatim>\<open>MesosTaskParametersIsImmutableError\<close>, whatever the object, the attribute and
  the value, and leaves the heap, and so every field of the object, as it was.
\<close>

theorem setattr_delattr_immutable:
  "setattr h x name v = (h, Inl MesosTaskParametersIsImmutableError)
   \<and> delattr h x name = (h, Inl MesosTaskParametersIsImmutableError)"
  by (simp add: setattr_def delattr_def)

section \<open>Objects\<close>

lemma distinct_field_names: "distinct field_names"
  by (simp add: field_names_def)

lemma init_accepts:
  "list_all known_field (map fst kwargs) \<Longrightarrow>
     MesosTaskParameters_init h kwargs = (h @ [init_dict kwargs], Inr (length h))"
  by (simp add: MesosTaskParameters_init_def init_dict_def known_field_def [abs_def])

lemma init_rejects:
  "\<not> list_all known_field (map fst kwargs) \<Longrightarrow>
     MesosTaskParameters_init h kwargs = (h, Inl TypeError)"
  by (simp add: MesosTaskParameters_init_def known_field_def [abs_def])

lemma map_of_tabulate: "map_of (map (\<lambda>f. (f, g f)) fs) k = (if k \<in> set fs then Some (g k) else None)"
  by (induction fs) auto

lemma fst_init_dict: "map fst (init_dict kwargs) = field_names"
  by (simp add: init_dict_def comp_def)

lemma map_of_init_dict:
  "map_of (init_dict kwargs) f = (if f \<in> set field_names then Some (dict_get kwargs f) else None)"
  by (simp add: init_dict_def map_of_tabulate)

lemma wf_dict_get: "wf_values d \<Longrightarrow> wf_json (dict_get d k)"
proof -
  assume w: "wf_values d"
  show ?thesis
  proof (cases "map_of d k")
    case None
    then show ?thesis by (simp add: dict_get_def)
  next
    case (Some v)
    then have "(k, v) \<in> set d" by (rule map_of_SomeD)
    with w have "wf_json v" by (auto simp: wf_values_def list_all_iff)
    with Some show ?thesis by (simp add: dict_get_def)
  qed
qed

lemma params_dict_init: "wf_values kwargs \<Longrightarrow> params_dict (init_dict kwargs)"
  unfolding params_dict_def
proof
  show "map fst (init_dict kwargs) = field_names" by (rule fst_init_dict)
  assume "wf_values kwargs"
  then have "\<And>f. wf_json (dict_get kwargs f)" by (rule wf_dict_get)
  then show "wf_values (init_dict kwargs)"
    unfolding wf_values_def init_dict_def by (simp add: list_all_iff)
qed

lemma tabulate_self:
  assumes "distinct (map fst d)"
  shows "map (\<lambda>f. (f, dict_get d f)) (map fst d) = d"
proof -
  have "(fst p, dict_get d (fst p)) = p" if "p \<in> set d" for p
  proof -
    from that have "(fst p, snd p) \<in> set d" by simp
    then have "map_of d (fst p) = Some (snd p)"
      using assms by (rule map_of_is_SomeI [rotated])
    then show ?thesis by (simp add: dict_get_def)
  qed
  then have "map (\<lambda>p. (fst p, dict_get d (fst p))) d = d"
    by (intro map_idI) simp
  then show ?thesis by (simp add: comp_def)
qed

lemma init_dict_params: "params_dict d \<Longrightarrow> init_dict d = d"
  using tabulate_self [of d] distinct_field_names
  by (simp add: params_dict_def init_dict_def)

lemma params_dict_known: "params_dict d \<Longrightarrow> list_all known_field (map fst d)"
  by (simp add: params_dict_def known_field_def list_all_iff)

lemma params_dict_wf: "params_dict d \<Longrightarrow> wf_json (JDict d)"
  using distinct_field_names by (simp add: params_dict_def wf_values_def)

lemma deserialize_dumps:
  "params_dict d \<Longrightarrow> deserialize h (dumps (JDict d)) = (h @ [d], Inr (length h))"
  using loads_dumps [OF params_dict_wf, of d] init_accepts [OF params_dict_known, of d h]
  by (simp add: deserialize_def init_dict_params del: dumps.simps)

section \<open>Serialization\<close>





section \<open>Dictionaries\<close>

lemma map_of_dict_setitem: "map_of (dict_setitem d k v) = (map_of d)(k \<mapsto> v)"
  by (induction d) (auto simp: fun_eq_iff)

lemma keys_dict_setitem: "fst ` set (dict_setitem d k v) = insert k (fst ` set d)"
  by (induction d) auto

lemma dict_update_Cons:
  "dict_update d (p # ps) = dict_update (dict_setitem d (fst p) (snd p)) ps"
  by (simp add: dict_update_def)

lemma keys_dict_update: "fst ` set (dict_update d ps) = fst ` set d \<union> fst ` set ps"
proof (induction ps arbitrary: d)
  case Nil
  then show ?case by (simp add: dict_update_def)
next
  case (Cons p ps)
  show ?case
    unfolding dict_update_Cons Cons.IH keys_dict_setitem by auto
qed

lemma map_of_dict_update:
  "distinct (map fst ps) \<Longrightarrow>
     map_of (dict_update d ps) k = (case map_of ps k of Some v \<Rightarrow> Some v | None \<Rightarrow> map_of d k)"
proof (induction ps arbitrary: d)
  case Nil
  then show ?case by (simp add: dict_update_def)
next
  case (Cons p ps)
  have d: "distinct (map fst ps)" and n: "fst p \<notin> fst ` set ps"
    using Cons.prems by auto
  have none: "map_of ps (fst p) = None"
    using n by (simp add: map_of_eq_None_iff)
  show ?case
    unfolding dict_update_Cons Cons.IH [OF d] map_of_dict_setitem
    using none by (cases p) (auto split: option.splits)
qed

lemma dict_get_dict_update:
  "distinct (map fst ps) \<Longrightarrow>
     dict_get (dict_update d ps) k = (case map_of ps k of Some v \<Rightarrow> v | None \<Rightarrow> dict_get d k)"
  by (simp add: dict_get_def map_of_dict_update split: option.splits)

lemma dict_update_Nil: "dict_update d [] = d"
  by (simp add: dict_update_def)



section \<open>Merging\<close>

lemma merge_unfold:
  "x < length h \<Longrightarrow>
     merge h x kwargs =
       MesosTaskParameters_init (h[x := dict_update (h ! x) kwargs]) (dict_update (h ! x) kwargs)"
  by (simp add: merge_def Let_def)

text \<open>
  C1. The object returned by \<^verbatim>\<open>merge\<close> is new and holds the merged fields, but the call
  also writes the keywords into the receiver: \<^verbatim>\<open>MesosTaskParameters().merge(health=True)\<close>
  leaves the receiver (address 0, all fields \<^verbatim>\<open>None\<close> before the call) with
  \<^verbatim>\<open>health = True\<close>.
\<close>

theorem merge_writes_receiver:
  "MesosTaskParameters_init [] [] = ([init_dict []], Inr 0)
   \<and> dict_get (init_dict []) ''health'' = JNull
   \<and> merge [init_dict []] 0 [(''health'', JBool True)]
       = ([init_dict [(''health'', JBool True)], init_dict [(''health'', JBool True)]], Inr 1)
   \<and> dict_get (fst (merge [init_dict []] 0 [(''health'', JBool True)]) ! 0) ''health'' = JBool True"
  by (simp add: MesosTaskParameters_init_def merge_def init_dict_def field_names_def dict_get_def
      dict_update_def)



section \<open>Reading and writing one task\<close>

lemma map_of_absent: "k \<notin> fst ` set d \<Longrightarrow> map_of d k = None"
  by (simp add: map_of_eq_None_iff)

lemma overwrite_task_keeps_no_entry:
  assumes "no_entry s task_id" "other \<noteq> task_id"
  shows "no_entry (fst (overwrite_task s other params)) task_id"
proof (cases "store s")
  case (DictTaskStore ts)
  then show ?thesis
    using assms
    by (auto simp: no_entry_def overwrite_task_def keys_dict_setitem
        split: prod.splits sum.splits)
next
  case (ZKTaskStore z)
  then show ?thesis
    using assms
    by (auto simp: no_entry_def overwrite_task_def zk_set_def zk_create_def
        zk_path_from_task_id_def keys_dict_setitem split: option.splits)
qed

text \<open>
  C8. In both stores \<^verbatim>\<open>get_task\<close> returns \<^verbatim>\<open>None\<close>, raises nothing and changes nothing
  for a task that has no entry. A new store has no entry for any task, and writing
  another task does not make one.
\<close>

theorem get_task_never_written:
  "(no_entry s task_id \<longrightarrow> get_task s task_id = (s, Inr None))
   \<and> (no_entry s task_id \<and> other \<noteq> task_id
        \<longrightarrow> no_entry (fst (overwrite_task s other params)) task_id)
   \<and> no_entry (s\<lparr>store := DictTaskStore []\<rparr>) task_id
   \<and> no_entry (s\<lparr>store := ZKTaskStore []\<rparr>) task_id"
proof -
  have "get_task s task_id = (s, Inr None)" if "no_entry s task_id"
    using that
    by (cases "store s")
      (simp_all add: no_entry_def get_task_def log_warning_def zk_get_def zk_path_from_task_id_def map_of_absent)
  then show ?thesis
    using overwrite_task_keeps_no_entry [of s task_id other params]
    by (simp add: no_entry_def)
qed

theorem get_task_never_written_witness:
  "no_entry \<lparr>heap = [], store = ZKTaskStore [], logged = []\<rparr> ''missing''
   \<and> get_task \<lparr>heap = [], store = ZKTaskStore [], logged = []\<rparr> ''missing''
       = (\<lparr>heap = [], store = ZKTaskStore [], logged = []\<rparr>, Inr None)
   \<and> no_entry \<lparr>heap = [], store = DictTaskStore [], logged = []\<rparr> ''missing''
   \<and> get_task \<lparr>heap = [], store = DictTaskStore [], logged = []\<rparr> ''missing''
       = (\<lparr>heap = [], store = DictTaskStore [], logged = []\<rparr>, Inr None)
   \<and> ''t1'' \<noteq> ''missing''
   \<and> no_entry (fst (overwrite_task \<lparr>heap = [init_dict []], store = ZKTaskStore [], logged = []\<rparr>
        ''t1'' 0)) ''missing''"
proof -
  let ?z = "\<lparr>heap = [], store = ZKTaskStore [], logged = []\<rparr>"
  let ?d = "\<lparr>heap = [], store = DictTaskStore [], logged = []\<rparr>"
  let ?w = "\<lparr>heap = [init_dict []], store = ZKTaskStore [], logged = []\<rparr>"
  have a: "no_entry ?z ''missing''" by (simp add: no_entry_def)
  have b: "no_entry ?d ''missing''" by (simp add: no_entry_def)
  have c: "no_entry ?w ''missing''" by (simp add: no_entry_def)
  have d: "''t1'' \<noteq> ''missing''" by simp
  show ?thesis
    using a b c d
      get_task_never_written [of ?z "''missing''"]
      get_task_never_written [of ?d "''missing''"]
      get_task_never_written [of ?w "''missing''" "''t1''" 0]
    by blast
qed

text \<open>
  C9. On the coordinated store \<^verbatim>\<open>overwrite_task\<close> succeeds whether or not the node is
  there: either \<^verbatim>\<open>set\<close> succeeds, or \<^verbatim>\<open>set\<close> fails with \<^verbatim>\<open>NoNodeError\<close> and \<^verbatim>\<open>create\<close>
  succeeds; afterwards the node of the task holds \<^verbatim>\<open>params.serialize()\<close>, and nothing
  but the table of nodes has changed.
\<close>

theorem overwrite_task_upsert:
  assumes "store s = ZKTaskStore z"
  shows "\<exists>z'. overwrite_task s task_id params = (s\<lparr>store := ZKTaskStore z'\<rparr>, Inr ())
      \<and> (zk_set z (zk_path_from_task_id task_id) (serialize (heap s) params) = Inr z'
          \<or> zk_set z (zk_path_from_task_id task_id) (serialize (heap s) params) = Inl NoNodeError
            \<and> zk_create z (zk_path_from_task_id task_id) (serialize (heap s) params) = Inr z')
      \<and> zk_get z' (zk_path_from_task_id task_id) = Inr (serialize (heap s) params)"
proof (cases "map_of z (zk_path_from_task_id task_id)")
  case None
  then show ?thesis
    using assms
    by (simp add: overwrite_task_def zk_set_def zk_create_def zk_get_def map_of_dict_setitem)
next
  case (Some old)
  then show ?thesis
    using assms
    by (simp add: overwrite_task_def zk_set_def zk_get_def map_of_dict_setitem)
qed

theorem overwrite_task_upsert_witness:
  "store \<lparr>heap = [init_dict []], store = ZKTaskStore [], logged = []\<rparr> = ZKTaskStore []
   \<and> store \<lparr>heap = [init_dict []], store = ZKTaskStore [(''/t1'', ''old'')], logged = []\<rparr>
       = ZKTaskStore [(''/t1'', ''old'')]
   \<and> (\<exists>z'. overwrite_task \<lparr>heap = [init_dict []], store = ZKTaskStore [], logged = []\<rparr> ''t1'' 0
         = (\<lparr>heap = [init_dict []], store = ZKTaskStore z', logged = []\<rparr>, Inr ())
       \<and> zk_get z' ''/t1'' = Inr (serialize [init_dict []] 0))
   \<and> (\<exists>z'. overwrite_task
           \<lparr>heap = [init_dict []], store = ZKTaskStore [(''/t1'', ''old'')], logged = []\<rparr> ''t1'' 0
         = (\<lparr>heap = [init_dict []], store = ZKTaskStore z', logged = []\<rparr>, Inr ())
       \<and> zk_get z' ''/t1'' = Inr (serialize [init_dict []] 0))"
proof -
  let ?a = "\<lparr>heap = [init_dict []], store = ZKTaskStore [], logged = []\<rparr>"
  let ?b = "\<lparr>heap = [init_dict []], store = ZKTaskStore [(''/t1'', ''old'')], logged = []\<rparr>"
  have a: "store ?a = ZKTaskStore []" by simp
  have b: "store ?b = ZKTaskStore [(''/t1'', ''old'')]" by simp
  show ?thesis
    using overwrite_task_upsert [OF a, of "''t1''" 0] overwrite_task_upsert [OF b, of "''t1''" 0]
    by (simp add: zk_path_from_task_id_def del: ex_simps) blast
qed

section \<open>Reading from the coordinated store\<close>

lemma get_task_store: "store (fst (get_task s task_id)) = store s"
  by (auto simp: get_task_def log_warning_def split: task_store.splits sum.splits prod.splits)











section \<open>What the decoder returns is well formed\<close>

lemma distinct_dict_setitem:
  "distinct (map fst d) \<Longrightarrow> distinct (map fst (dict_setitem d k v))"
proof (induction d)
  case Nil
  then show ?case by simp
next
  case (Cons p d)
  then show ?case by (auto simp: keys_dict_setitem)
qed

lemma distinct_dict_update:
  "distinct (map fst d) \<Longrightarrow> distinct (map fst (dict_update d ps))"
proof (induction ps arbitrary: d)
  case Nil
  then show ?case by (simp add: dict_update_Nil)
next
  case (Cons p ps)
  show ?case
    unfolding dict_update_Cons
    by (rule Cons.IH) (rule distinct_dict_setitem [OF Cons.prems])
qed

lemma wf_values_dict_setitem:
  "wf_values d \<Longrightarrow> wf_json v \<Longrightarrow> wf_values (dict_setitem d k v)"
  by (induction d) (auto simp: wf_values_def)

lemma wf_values_dict_update:
  "wf_values d \<Longrightarrow> wf_values ps \<Longrightarrow> wf_values (dict_update d ps)"
proof (induction ps arbitrary: d)
  case Nil
  then show ?case by (simp add: dict_update_Nil)
next
  case (Cons p ps)
  have "wf_json (snd p)" and rest: "wf_values ps"
    using Cons.prems(2) by (simp_all add: wf_values_def)
  then have "wf_values (dict_setitem d (fst p) (snd p))"
    using Cons.prems(1) by (simp add: wf_values_dict_setitem)
  then show ?case
    unfolding dict_update_Cons using rest by (rule Cons.IH)
qed

lemma wf_JDict_dict_update: "wf_values ps \<Longrightarrow> wf_json (JDict (dict_update [] ps))"
  using distinct_dict_update [of "[]" ps] wf_values_dict_update [of "[]" ps]
  by (simp add: wf_values_def)

lemma scan_once_shape:
  assumes "scan_once (Suc n) s = Inr (v, r)"
  shows "(\<exists>t. v = JStr t) \<or> (\<exists>i. v = JInt i) \<or> (\<exists>b. v = JBool b) \<or> v = JNull
    \<or> v = JDict [] \<or> v = JList []
    \<or> (\<exists>s' ps. scan_object n s' = Inr (ps, r) \<and> v = JDict (dict_update [] ps))
    \<or> (\<exists>s' vs. scan_array n s' = Inr (vs, r) \<and> v = JList vs)"
proof (cases s)
  case Nil
  with assms show ?thesis by simp
next
  case (Cons c cs)
  consider "c = CHR 0x22" | "c = CHR ''{''" | "c = CHR ''[''"
    | "c \<noteq> CHR 0x22" "c \<noteq> CHR ''{''" "c \<noteq> CHR ''[''"
    by blast
  then show ?thesis
  proof cases
    case 1
    with assms Cons show ?thesis by (auto split: sum.splits)
  next
    case 2
    with assms Cons show ?thesis
      by (cases "skip_ws cs") (auto split: sum.splits if_splits)
  next
    case 3
    with assms Cons show ?thesis
      by (cases "skip_ws cs") (auto split: sum.splits if_splits)
  next
    case 4
    with assms Cons have
      "(if take 4 s = ''null'' then Inr (JNull, drop 4 s)
        else if take 4 s = ''true'' then Inr (JBool True, drop 4 s)
        else if take 5 s = ''false'' then Inr (JBool False, drop 5 s)
        else (case match_number s of
               Some (Inl err) \<Rightarrow> Inl err
             | Some (Inr (i, r)) \<Rightarrow> Inr (JInt i, r)
             | None \<Rightarrow>
                 if take 3 s = ''NaN'' \<or> take 8 s = ''Infinity'' \<or> take 9 s = ''-Infinity''
                 then Inl OutsideModel
                 else Inl JSONDecodeError)) = Inr (v, r)"
      by (simp only: scan_once.simps list.case if_False)
    then show ?thesis
      by (cases "match_number s") (auto split: if_splits sum.splits)
  qed
qed

lemma scan_array_shape:
  assumes "scan_array (Suc n) s = Inr (vs, r)"
  shows "\<exists>v r1. scan_once n s = Inr (v, r1)
    \<and> (vs = [v] \<or> (\<exists>s' vs'. scan_array n s' = Inr (vs', r) \<and> vs = v # vs'))"
proof (cases "scan_once n s")
  case (Inl err)
  with assms show ?thesis by simp
next
  case (Inr p)
  obtain v r1 where p: "p = (v, r1)" by (cases p)
  show ?thesis
    using assms Inr p by (cases "skip_ws r1") (auto split: if_splits sum.splits)
qed

lemma scan_object_shape:
  assumes "scan_object (Suc n) s = Inr (ps, r)"
  shows "\<exists>k v s1 r1. scan_once n s1 = Inr (v, r1)
    \<and> (ps = [(k, v)] \<or> (\<exists>s' ps'. scan_object n s' = Inr (ps', r) \<and> ps = (k, v) # ps'))"
proof (cases s)
  case Nil
  with assms show ?thesis by simp
next
  case (Cons q cs)
  show ?thesis
  proof (cases "scanstring cs")
    case (Inl err)
    with assms Cons show ?thesis by (simp split: if_splits)
  next
    case (Inr p)
    obtain k r0 where p: "p = (k, r0)" by (cases p)
    show ?thesis
    proof (cases "skip_ws r0")
      case Nil
      with assms Cons Inr p show ?thesis by (simp split: if_splits)
    next
      case c: (Cons c r1)
      show ?thesis
      proof (cases "scan_once n (skip_ws r1)")
        case (Inl err)
        with assms Cons Inr p c show ?thesis by (simp split: if_splits)
      next
        case v: (Inr pv)
        obtain v r2 where pv: "pv = (v, r2)" by (cases pv)
        show ?thesis
          using assms Cons Inr p c v pv
          by (cases "skip_ws r2") (auto split: if_splits sum.splits)
      qed
    qed
  qed
qed

lemma scan_wf:
  "(\<forall>s v r. scan_once n s = Inr (v, r) \<longrightarrow> wf_json v)
   \<and> (\<forall>s vs r. scan_array n s = Inr (vs, r) \<longrightarrow> list_all wf_json vs)
   \<and> (\<forall>s ps r. scan_object n s = Inr (ps, r) \<longrightarrow> wf_values ps)"
proof (induction n)
  case 0
  show ?case by simp
next
  case (Suc n)
  from Suc have once: "\<And>s v r. scan_once n s = Inr (v, r) \<Longrightarrow> wf_json v"
    and array: "\<And>s vs r. scan_array n s = Inr (vs, r) \<Longrightarrow> list_all wf_json vs"
    and object: "\<And>s ps r. scan_object n s = Inr (ps, r) \<Longrightarrow> wf_values ps"
    by blast+
  have a: "wf_json v" if "scan_once (Suc n) s = Inr (v, r)" for s v r
  proof -
    from scan_once_shape [OF that] consider
        "(\<exists>t. v = JStr t) \<or> (\<exists>i. v = JInt i) \<or> (\<exists>b. v = JBool b) \<or> v = JNull \<or> v = JDict []
          \<or> v = JList []"
      | s' ps where "scan_object n s' = Inr (ps, r)" "v = JDict (dict_update [] ps)"
      | s' vs where "scan_array n s' = Inr (vs, r)" "v = JList vs"
      by blast
    then show ?thesis
    proof cases
      case 1
      then show ?thesis by auto
    next
      case 2
      from 2(1) have "wf_values ps" by (rule object)
      then show ?thesis unfolding 2(2) by (rule wf_JDict_dict_update)
    next
      case 3
      from 3(1) have "list_all wf_json vs" by (rule array)
      then show ?thesis by (simp add: 3(2))
    qed
  qed
  have b: "list_all wf_json vs" if "scan_array (Suc n) s = Inr (vs, r)" for s vs r
  proof -
    from scan_array_shape [OF that] obtain v r1 where
      v: "scan_once n s = Inr (v, r1)"
      and vs: "vs = [v] \<or> (\<exists>s' vs'. scan_array n s' = Inr (vs', r) \<and> vs = v # vs')"
      by blast
    have "wf_json v" using v by (rule once)
    with vs array show ?thesis by auto
  qed
  have c: "wf_values ps" if "scan_object (Suc n) s = Inr (ps, r)" for s ps r
  proof -
    from scan_object_shape [OF that] obtain k v s1 r1 where
      v: "scan_once n s1 = Inr (v, r1)"
      and ps: "ps = [(k, v)] \<or> (\<exists>s' ps'. scan_object n s' = Inr (ps', r) \<and> ps = (k, v) # ps')"
      by blast
    have "wf_json v" using v by (rule once)
    with ps object show ?thesis by (auto simp: wf_values_def)
  qed
  show ?case using a b c by blast
qed

lemma loads_wf: "loads s = Inr v \<Longrightarrow> wf_json v"
proof -
  assume l: "loads s = Inr v"
  then obtain r where "scan_once (2 * length s + 1) (skip_ws s) = Inr (v, r)"
    unfolding loads_def by (auto split: if_splits sum.splits prod.splits)
  then show ?thesis using scan_wf [of "2 * length s + 1"] by blast
qed

section \<open>Writing and reading back\<close>

lemma deserialize_accepts:
  assumes "deserialize h payload = (h', Inr a)"
  shows "\<exists>d. h' = h @ [init_dict d] \<and> a = length h \<and> params_dict (init_dict d)"
proof -
  from assms obtain d where l: "loads payload = Inr (JDict d)"
    by (auto simp: deserialize_def split: sum.splits json.splits)
  then have i: "MesosTaskParameters_init h d = (h', Inr a)"
    using assms by (simp add: deserialize_def)
  then have known: "list_all known_field (map fst d)"
    using init_rejects [of d h] by (cases "list_all known_field (map fst d)") auto
  have "wf_json (JDict d)" using l by (rule loads_wf)
  then have "wf_values d" by (simp add: wf_values_def)
  then have "params_dict (init_dict d)" by (rule params_dict_init)
  then show ?thesis using i init_accepts [OF known, of h] by auto
qed

lemma get_task_Some:
  assumes "store_ok s" and "get_task s task_id = (s1, Inr (Some a))"
  shows "a < length (heap s1) \<and> params_dict (heap s1 ! a) \<and> store s1 = store s"
proof (cases "store s")
  case (DictTaskStore ts)
  then have s1: "s1 = s" and m: "map_of ts task_id = Some a"
    using assms(2) by (auto simp: get_task_def log_warning_def)
  from m have "(task_id, a) \<in> set ts" by (rule map_of_SomeD)
  then have "a < length (heap s) \<and> params_dict (heap s ! a)"
    using assms(1) DictTaskStore by (auto simp: store_ok_def list_all_iff)
  then show ?thesis by (simp add: s1)
next
  case (ZKTaskStore z)
  then obtain data where z: "zk_get z (CHR ''/'' # task_id) = Inr data"
    using assms(2)
    by (cases "zk_get z (CHR ''/'' # task_id)") (auto simp: get_task_def log_warning_def split: if_splits)
  obtain h' r where d: "deserialize (heap s) data = (h', r)" by (cases "deserialize (heap s) data")
  then have r: "r = Inr a" and s1: "s1 = s\<lparr>heap := h'\<rparr>"
    using assms(2) ZKTaskStore z
    by (cases r; auto simp: get_task_def log_warning_def split: if_splits)+
  from deserialize_accepts [OF d [unfolded r]] show ?thesis
    by (auto simp: s1)
qed

lemma get_task_again:
  assumes "get_task s task_id = (s1, Inr (Some a))"
  shows "\<exists>s2 b. get_task s1 task_id = (s2, Inr (Some b)) \<and> heap s2 ! b = heap s1 ! a"
proof (cases "store s")
  case (DictTaskStore ts)
  then have "s1 = s" using assms by (auto simp: get_task_def log_warning_def)
  then show ?thesis using assms by auto
next
  case (ZKTaskStore z)
  then obtain data where z: "zk_get z (CHR ''/'' # task_id) = Inr data"
    using assms
    by (cases "zk_get z (CHR ''/'' # task_id)") (auto simp: get_task_def log_warning_def split: if_splits)
  obtain h' r where d: "deserialize (heap s) data = (h', r)" by (cases "deserialize (heap s) data")
  then have r: "r = Inr a" and s1: "s1 = s\<lparr>heap := h'\<rparr>"
    using assms ZKTaskStore z
    by (cases r; auto simp: get_task_def log_warning_def split: if_splits)+
  from d r obtain kw where l: "loads data = Inr (JDict kw)"
    by (auto simp: deserialize_def split: sum.splits json.splits)
  have known: "list_all known_field (map fst kw)"
    using d r l init_rejects [of kw "heap s"]
    by (cases "list_all known_field (map fst kw)") (auto simp: deserialize_def)
  have h': "h' = heap s @ [init_dict kw]" and a: "a = length (heap s)"
    using d r l init_accepts [OF known, of "heap s"] by (auto simp: deserialize_def)
  have "get_task s1 task_id
      = (s1\<lparr>heap := heap s1 @ [init_dict kw]\<rparr>, Inr (Some (length (heap s1))))"
    using ZKTaskStore z l
    by (simp add: s1 get_task_def log_warning_def deserialize_def init_accepts [OF known])
  then show ?thesis by (simp add: s1 h' a nth_append)
qed

lemma set_dict_setitem: "set (dict_setitem d k v) \<subseteq> insert (k, v) (set d)"
  by (induction d) auto

lemma zk_overwrite:
  assumes "store s = ZKTaskStore z"
  shows "overwrite_task s task_id p =
      (s\<lparr>store := ZKTaskStore
          (dict_setitem z (zk_path_from_task_id task_id) (serialize (heap s) p))\<rparr>, Inr ())
    \<and> zk_get (dict_setitem z (zk_path_from_task_id task_id) (serialize (heap s) p))
          (zk_path_from_task_id task_id) = Inr (serialize (heap s) p)"
  using assms
  by (cases "map_of z (zk_path_from_task_id task_id)")
    (simp_all add: overwrite_task_def zk_set_def zk_create_def zk_get_def map_of_dict_setitem)

lemma overwrite_then_get:
  assumes "p < length (heap s)" and "params_dict (heap s ! p)"
  shows "\<exists>s'. overwrite_task s task_id p = (s', Inr ())
      \<and> heap s' ! p = heap s ! p
      \<and> (\<exists>s'' q. get_task s' task_id = (s'', Inr (Some q)) \<and> heap s'' ! q = heap s ! p)"
proof (cases "store s")
  case (DictTaskStore ts)
  let ?d = "heap s ! p"
  let ?s' = "s\<lparr>heap := heap s @ [?d],
      store := DictTaskStore (dict_setitem ts task_id (length (heap s)))\<rparr>"
  have "overwrite_task s task_id p = (?s', Inr ())"
    using DictTaskStore deserialize_dumps [OF assms(2), of "heap s"]
    by (simp add: overwrite_task_def serialize_def del: dumps.simps)
  moreover have "get_task ?s' task_id = (?s', Inr (Some (length (heap s))))"
    by (simp add: get_task_def log_warning_def map_of_dict_setitem)
  ultimately show ?thesis using assms(1) by (simp add: nth_append)
next
  case (ZKTaskStore z)
  let ?d = "heap s ! p"
  obtain z' where z': "z' = dict_setitem z (zk_path_from_task_id task_id) (serialize (heap s) p)"
    by simp
  have w: "overwrite_task s task_id p = (s\<lparr>store := ZKTaskStore z'\<rparr>, Inr ())"
    and g: "zk_get z' (zk_path_from_task_id task_id) = Inr (serialize (heap s) p)"
    using zk_overwrite [OF ZKTaskStore, of task_id p] by (simp_all add: z')
  let ?s' = "s\<lparr>store := ZKTaskStore z'\<rparr>"
  have "get_task ?s' task_id = (?s'\<lparr>heap := heap s @ [?d]\<rparr>, Inr (Some (length (heap s))))"
    using g deserialize_dumps [OF assms(2), of "heap s"]
    by (simp add: get_task_def log_warning_def zk_path_from_task_id_def serialize_def del: dumps.simps)
  then show ?thesis using w by simp
qed

section \<open>Adding and updating\<close>

lemma add_existing:
  "get_task s task_id = (s1, Inr (Some p)) \<Longrightarrow>
     add_task_if_doesnt_exist s task_id kwargs = (s1, Inr ())"
  by (simp add: add_task_if_doesnt_exist_def)

lemma add_absent:
  "get_task s task_id = (s1, Inr None) \<Longrightarrow> list_all known_field (map fst kwargs) \<Longrightarrow>
     add_task_if_doesnt_exist s task_id kwargs =
       overwrite_task (s1\<lparr>heap := heap s1 @ [init_dict kwargs]\<rparr>) task_id (length (heap s1))"
  by (simp add: add_task_if_doesnt_exist_def init_accepts)

text \<open>
  C5. \<^verbatim>\<open>add_task_if_doesnt_exist\<close> does nothing to the store when \<^verbatim>\<open>get_task\<close> finds the
  task, and when \<^verbatim>\<open>get_task\<close> returns \<^verbatim>\<open>None\<close> it is \<^verbatim>\<open>overwrite_task\<close> with the object
  constructed from the keywords. So after a call that found nothing, with keywords for
  some of the six fields, \<^verbatim>\<open>get_task\<close> returns the value of those keywords, and a second
  call with any keywords succeeds, leaves the store as it is and leaves \<^verbatim>\<open>get_task\<close>
  returning the value of the first call.
\<close>

theorem add_task_if_doesnt_exist_first_wins:
  assumes "get_task s task_id = (s1, r)"
  shows "(\<forall>p. r = Inr (Some p) \<longrightarrow>
            add_task_if_doesnt_exist s task_id kwargs = (s1, Inr ()) \<and> store s1 = store s)
    \<and> (r = Inr None \<and> list_all known_field (map fst kwargs) \<longrightarrow>
          add_task_if_doesnt_exist s task_id kwargs =
            overwrite_task (s1\<lparr>heap := heap s1 @ [init_dict kwargs]\<rparr>) task_id (length (heap s1)))
    \<and> (r = Inr None \<and> list_all known_field (map fst kwargs) \<and> wf_values kwargs \<longrightarrow>
          (\<exists>s2. add_task_if_doesnt_exist s task_id kwargs = (s2, Inr ())
             \<and> (\<exists>s3 q. get_task s2 task_id = (s3, Inr (Some q)) \<and> heap s3 ! q = init_dict kwargs)
             \<and> (\<exists>s4. add_task_if_doesnt_exist s2 task_id kwargs2 = (s4, Inr ())
                   \<and> store s4 = store s2
                   \<and> (\<exists>s5 q. get_task s4 task_id = (s5, Inr (Some q))
                         \<and> heap s5 ! q = init_dict kwargs))))"
proof (intro conjI allI impI)
  fix p assume "r = Inr (Some p)"
  then show "add_task_if_doesnt_exist s task_id kwargs = (s1, Inr ())"
    using assms by (simp add: add_existing)
  show "store s1 = store s" using get_task_store [of s task_id] assms by simp
next
  assume "r = Inr None \<and> list_all known_field (map fst kwargs)"
  then show "add_task_if_doesnt_exist s task_id kwargs =
      overwrite_task (s1\<lparr>heap := heap s1 @ [init_dict kwargs]\<rparr>) task_id (length (heap s1))"
    using assms by (simp add: add_absent)
next
  assume a: "r = Inr None \<and> list_all known_field (map fst kwargs) \<and> wf_values kwargs"
  let ?t = "s1\<lparr>heap := heap s1 @ [init_dict kwargs]\<rparr>"
  have add: "add_task_if_doesnt_exist s task_id kwargs = overwrite_task ?t task_id (length (heap s1))"
    using assms a by (simp add: add_absent)
  have p: "length (heap s1) < length (heap ?t)" by simp
  have d: "params_dict (heap ?t ! length (heap s1))"
    using a by (simp add: params_dict_init)
  from overwrite_then_get [OF p d, of task_id] obtain s2 s3 q where
    w: "overwrite_task ?t task_id (length (heap s1)) = (s2, Inr ())"
    and g: "get_task s2 task_id = (s3, Inr (Some q))"
    and v: "heap s3 ! q = init_dict kwargs"
    by auto
  have second: "add_task_if_doesnt_exist s2 task_id kwargs2 = (s3, Inr ())"
    using g by (rule add_existing)
  have st: "store s3 = store s2" using get_task_store [of s2 task_id] g by simp
  from get_task_again [OF g] obtain s5 q' where
    "get_task s3 task_id = (s5, Inr (Some q'))" "heap s5 ! q' = heap s3 ! q"
    by blast
  then show "\<exists>s2. add_task_if_doesnt_exist s task_id kwargs = (s2, Inr ())
      \<and> (\<exists>s3 q. get_task s2 task_id = (s3, Inr (Some q)) \<and> heap s3 ! q = init_dict kwargs)
      \<and> (\<exists>s4. add_task_if_doesnt_exist s2 task_id kwargs2 = (s4, Inr ())
            \<and> store s4 = store s2
            \<and> (\<exists>s5 q. get_task s4 task_id = (s5, Inr (Some q)) \<and> heap s5 ! q = init_dict kwargs))"
    using add w g v second st by auto
qed

theorem add_task_if_doesnt_exist_first_wins_witness:
  "get_task \<lparr>heap = [], store = DictTaskStore [], logged = []\<rparr> ''t1''
     = (\<lparr>heap = [], store = DictTaskStore [], logged = []\<rparr>, Inr None)
   \<and> list_all known_field (map fst [(''health'', JBool True)])
   \<and> wf_values [(''health'', JBool True)]
   \<and> (\<exists>s2. add_task_if_doesnt_exist \<lparr>heap = [], store = DictTaskStore [], logged = []\<rparr> ''t1''
               [(''health'', JBool True)] = (s2, Inr ())
          \<and> (\<exists>s4. add_task_if_doesnt_exist s2 ''t1'' [(''health'', JBool False)] = (s4, Inr ())
                \<and> store s4 = store s2
                \<and> (\<exists>s5 q. get_task s4 ''t1'' = (s5, Inr (Some q))
                      \<and> heap s5 ! q = init_dict [(''health'', JBool True)])))
   \<and> get_task \<lparr>heap = [], store = ZKTaskStore [], logged = []\<rparr> ''t1''
     = (\<lparr>heap = [], store = ZKTaskStore [], logged = []\<rparr>, Inr None)
   \<and> (\<exists>s2. add_task_if_doesnt_exist \<lparr>heap = [], store = ZKTaskStore [], logged = []\<rparr> ''t1''
               [(''health'', JBool True)] = (s2, Inr ())
          \<and> (\<exists>s4. add_task_if_doesnt_exist s2 ''t1'' [(''health'', JBool False)] = (s4, Inr ())
                \<and> store s4 = store s2
                \<and> (\<exists>s5 q. get_task s4 ''t1'' = (s5, Inr (Some q))
                      \<and> heap s5 ! q = init_dict [(''health'', JBool True)])))"
proof -
  let ?d = "\<lparr>heap = [], store = DictTaskStore [], logged = []\<rparr>"
  let ?z = "\<lparr>heap = [], store = ZKTaskStore [], logged = []\<rparr>"
  let ?kw = "[(''health'', JBool True)]"
  have a: "get_task ?d ''t1'' = (?d, Inr None)" by (simp add: get_task_def log_warning_def)
  have b: "get_task ?z ''t1'' = (?z, Inr None)" by (simp add: get_task_def log_warning_def zk_get_def)
  have c: "list_all known_field (map fst ?kw)" by (simp add: known_field_def field_names_def)
  have d: "wf_values ?kw" by (simp add: wf_values_def)
  have e: "Inr None = (Inr None :: error + addr option)" by simp
  have "\<exists>s2. add_task_if_doesnt_exist ?d ''t1'' ?kw = (s2, Inr ())
          \<and> (\<exists>s4. add_task_if_doesnt_exist s2 ''t1'' [(''health'', JBool False)] = (s4, Inr ())
                \<and> store s4 = store s2
                \<and> (\<exists>s5 q. get_task s4 ''t1'' = (s5, Inr (Some q)) \<and> heap s5 ! q = init_dict ?kw))"
    using add_task_if_doesnt_exist_first_wins [OF a, of ?kw "[(''health'', JBool False)]"] c d
    by blast
  moreover have "\<exists>s2. add_task_if_doesnt_exist ?z ''t1'' ?kw = (s2, Inr ())
          \<and> (\<exists>s4. add_task_if_doesnt_exist s2 ''t1'' [(''health'', JBool False)] = (s4, Inr ())
                \<and> store s4 = store s2
                \<and> (\<exists>s5 q. get_task s4 ''t1'' = (s5, Inr (Some q)) \<and> heap s5 ! q = init_dict ?kw))"
    using add_task_if_doesnt_exist_first_wins [OF b, of ?kw "[(''health'', JBool False)]"] c d
    by blast
  ultimately show ?thesis using a b c d by blast
qed

lemma merge_valid:
  assumes "a < length h" and "params_dict (h ! a)" and "valid_kwargs kwargs"
  shows "merge h a kwargs =
      (h[a := dict_update (h ! a) kwargs] @ [init_dict (dict_update (h ! a) kwargs)], Inr (length h))
    \<and> params_dict (init_dict (dict_update (h ! a) kwargs))"
proof -
  let ?d = "dict_update (h ! a) kwargs"
  have "fst ` set ?d = fst ` set (h ! a) \<union> fst ` set kwargs" by (rule keys_dict_update)
  moreover have "fst ` set (h ! a) = set field_names"
    using assms(2) by (simp add: params_dict_def flip: set_map)
  ultimately have known: "list_all known_field (map fst ?d)"
    using assms(3) by (auto simp: valid_kwargs_def known_field_def list_all_iff)
  have "wf_values ?d"
    using assms(2,3) by (simp add: params_dict_def valid_kwargs_def wf_values_dict_update)
  then have "params_dict (init_dict ?d)" by (rule params_dict_init)
  then show ?thesis
    using assms(1) init_accepts [OF known, of "h[a := ?d]"] by (simp add: merge_unfold)
qed

lemma dict_get_init_dict: "known_field f \<Longrightarrow> dict_get (init_dict d) f = dict_get d f"
  by (simp add: dict_get_def [of "init_dict d"] map_of_init_dict known_field_def)

text \<open>
  C4. Let \<^verbatim>\<open>get_task\<close> return \<open>r\<close> (an object or \<^verbatim>\<open>None\<close>), and let the keywords be for some
  of the six fields. Then \<^verbatim>\<open>update_task\<close> returns an object \<open>m\<close> whose \<^verbatim>\<open>__dict__\<close> is
  what the constructor stores for the fields of \<open>r\<close> (no fields for \<^verbatim>\<open>None\<close>) updated
  with the keywords: each field has the value of its keyword, and without one the value
  it has in \<open>r\<close> (\<^verbatim>\<open>None\<close> when there is no \<open>r\<close>). Afterwards \<^verbatim>\<open>get_task\<close> returns an object
  with that \<^verbatim>\<open>__dict__\<close>. When there was no entry, \<open>m\<close> is the object that the constructor
  builds from the keywords.
\<close>

theorem update_task_merges:
  assumes "store_ok s" and "valid_kwargs kwargs"
    and "get_task s task_id = (s1, Inr r)"
  shows "\<exists>s2 m. update_task s task_id kwargs = (s2, Inr m)
      \<and> heap s2 ! m
          = init_dict (dict_update (case r of None \<Rightarrow> [] | Some a \<Rightarrow> heap s1 ! a) kwargs)
      \<and> (\<forall>f. known_field f \<longrightarrow>
            dict_get (heap s2 ! m) f =
              (case map_of kwargs f of
                 Some v \<Rightarrow> v
               | None \<Rightarrow> (case r of None \<Rightarrow> JNull | Some a \<Rightarrow> dict_get (heap s1 ! a) f)))
      \<and> (\<exists>s3 q. get_task s2 task_id = (s3, Inr (Some q)) \<and> heap s3 ! q = heap s2 ! m)
      \<and> (r = None \<longrightarrow>
            MesosTaskParameters_init (heap s1) kwargs = (heap s1 @ [heap s2 ! m], Inr m))"
proof -
  let ?base = "case r of None \<Rightarrow> [] | Some a \<Rightarrow> heap s1 ! a"
  let ?merged = "init_dict (dict_update ?base kwargs)"
  have dist: "distinct (map fst kwargs)" and known: "list_all known_field (map fst kwargs)"
    and wf: "wf_values kwargs"
    using assms(2) by (simp_all add: valid_kwargs_def)
  have built: "\<exists>h. (case r of Some a \<Rightarrow> merge (heap s1) a kwargs
                       | None \<Rightarrow> MesosTaskParameters_init (heap s1) kwargs)
        = (h @ [?merged], Inr (length (heap s1)))
      \<and> length h = length (heap s1) \<and> params_dict ?merged"
  proof (cases r)
    case None
    have "dict_update [] kwargs = kwargs"
      using dict_update_distinct [of "[]" kwargs] dist by simp
    then show ?thesis
      using None init_accepts [OF known, of "heap s1"] params_dict_init [OF wf] by simp
  next
    case (Some a)
    have "a < length (heap s1)" "params_dict (heap s1 ! a)"
      using get_task_Some [OF assms(1)] assms(3) Some by simp_all
    from merge_valid [OF this assms(2)] show ?thesis
      using Some by simp
  qed
  then obtain h where
    b: "(case r of Some a \<Rightarrow> merge (heap s1) a kwargs
          | None \<Rightarrow> MesosTaskParameters_init (heap s1) kwargs)
        = (h @ [?merged], Inr (length (heap s1)))"
    and len: "length h = length (heap s1)" and pd: "params_dict ?merged"
    by blast
  let ?m = "length (heap s1)"
  let ?t = "s1\<lparr>heap := h @ [?merged]\<rparr>"
  have p: "?m < length (heap ?t)" by (simp add: len)
  have at: "heap ?t ! ?m = ?merged" using len by (simp add: nth_append)
  from overwrite_then_get [OF p, of task_id] pd at obtain s2 s3 q where
    w: "overwrite_task ?t task_id ?m = (s2, Inr ())"
    and keep: "heap s2 ! ?m = ?merged"
    and g: "get_task s2 task_id = (s3, Inr (Some q))" "heap s3 ! q = ?merged"
    by auto
  have u: "update_task s task_id kwargs = (s2, Inr ?m)"
    using assms(3) b w by (simp add: update_task_def)
  have fields: "dict_get ?merged f =
      (case map_of kwargs f of
         Some v \<Rightarrow> v
       | None \<Rightarrow> (case r of None \<Rightarrow> JNull | Some a \<Rightarrow> dict_get (heap s1 ! a) f))"
    if "known_field f" for f
  proof -
    have "dict_get ?base f = (case r of None \<Rightarrow> JNull | Some a \<Rightarrow> dict_get (heap s1 ! a) f)"
      by (cases r) (simp_all add: dict_get_def)
    then show ?thesis
      by (simp only: dict_get_init_dict [OF that] dict_get_dict_update [OF dist])
  qed
  have fresh: "MesosTaskParameters_init (heap s1) kwargs = (heap s1 @ [?merged], Inr ?m)"
    if "r = None"
  proof -
    have "dict_update [] kwargs = kwargs"
      using dict_update_distinct [of "[]" kwargs] dist by simp
    then show ?thesis using that init_accepts [OF known, of "heap s1"] by simp
  qed
  show ?thesis
    using u keep g fields fresh by (intro exI [of _ s2] exI [of _ ?m]) auto
qed

theorem update_task_merges_witness:
  "store_ok \<lparr>heap = [init_dict [(''health'', JBool True)]],
             store = DictTaskStore [(''t1'', 0)], logged = []\<rparr>
   \<and> valid_kwargs [(''is_draining'', JBool True)]
   \<and> get_task \<lparr>heap = [init_dict [(''health'', JBool True)]],
                store = DictTaskStore [(''t1'', 0)], logged = []\<rparr> ''t1''
       = (\<lparr>heap = [init_dict [(''health'', JBool True)]],
           store = DictTaskStore [(''t1'', 0)], logged = []\<rparr>, Inr (Some 0))
   \<and> (\<exists>s2 m. update_task \<lparr>heap = [init_dict [(''health'', JBool True)]],
                  store = DictTaskStore [(''t1'', 0)], logged = []\<rparr> ''t1''
                  [(''is_draining'', JBool True)] = (s2, Inr m)
         \<and> dict_get (heap s2 ! m) ''health'' = JBool True
         \<and> dict_get (heap s2 ! m) ''is_draining'' = JBool True
         \<and> dict_get (heap s2 ! m) ''offer'' = JNull
         \<and> (\<exists>s3 q. get_task s2 ''t1'' = (s3, Inr (Some q)) \<and> heap s3 ! q = heap s2 ! m))
   \<and> store_ok \<lparr>heap = [], store = ZKTaskStore [], logged = []\<rparr>
   \<and> get_task \<lparr>heap = [], store = ZKTaskStore [], logged = []\<rparr> ''t1''
       = (\<lparr>heap = [], store = ZKTaskStore [], logged = []\<rparr>, Inr None)
   \<and> (\<exists>s2 m. update_task \<lparr>heap = [], store = ZKTaskStore [], logged = []\<rparr> ''t1''
                  [(''is_draining'', JBool True)] = (s2, Inr m)
         \<and> MesosTaskParameters_init [] [(''is_draining'', JBool True)] = ([heap s2 ! m], Inr m)
         \<and> (\<exists>s3 q. get_task s2 ''t1'' = (s3, Inr (Some q)) \<and> heap s3 ! q = heap s2 ! m))"
proof -
  let ?d0 = "init_dict [(''health'', JBool True)]"
  let ?s = "\<lparr>heap = [?d0], store = DictTaskStore [(''t1'', 0)], logged = []\<rparr>"
  let ?z = "\<lparr>heap = [], store = ZKTaskStore [], logged = []\<rparr>"
  let ?kw = "[(''is_draining'', JBool True)]"
  have a: "store_ok ?s"
    by (simp add: store_ok_def params_dict_def wf_values_def init_dict_def field_names_def
        dict_get_def)
  have b: "valid_kwargs ?kw"
    by (simp add: valid_kwargs_def known_field_def field_names_def wf_values_def)
  have c: "get_task ?s ''t1'' = (?s, Inr (Some 0))" by (simp add: get_task_def log_warning_def)
  have d: "store_ok ?z" by (simp add: store_ok_def)
  have e: "get_task ?z ''t1'' = (?z, Inr None)" by (simp add: get_task_def log_warning_def zk_get_def)
  have k: "known_field ''health''" "known_field ''is_draining''" "known_field ''offer''"
    by (simp_all add: known_field_def field_names_def)
  have v: "dict_get ?d0 ''health'' = JBool True" "dict_get ?d0 ''offer'' = JNull"
    by (simp_all add: init_dict_def field_names_def dict_get_def)
  from update_task_merges [OF a b c] obtain s2 m where
    u: "update_task ?s ''t1'' ?kw = (s2, Inr m)"
    and f: "\<forall>f. known_field f \<longrightarrow>
            dict_get (heap s2 ! m) f =
              (case map_of ?kw f of
                 Some v \<Rightarrow> v
               | None \<Rightarrow> (case Some (0::nat) of None \<Rightarrow> JNull
                           | Some a \<Rightarrow> dict_get (heap ?s ! a) f))"
    and g: "\<exists>s3 q. get_task s2 ''t1'' = (s3, Inr (Some q)) \<and> heap s3 ! q = heap s2 ! m"
    by blast
  have "dict_get (heap s2 ! m) ''health'' = JBool True"
    "dict_get (heap s2 ! m) ''is_draining'' = JBool True"
    "dict_get (heap s2 ! m) ''offer'' = JNull"
    using f k v by simp_all
  with u g have first: "\<exists>s2 m. update_task ?s ''t1'' ?kw = (s2, Inr m)
         \<and> dict_get (heap s2 ! m) ''health'' = JBool True
         \<and> dict_get (heap s2 ! m) ''is_draining'' = JBool True
         \<and> dict_get (heap s2 ! m) ''offer'' = JNull
         \<and> (\<exists>s3 q. get_task s2 ''t1'' = (s3, Inr (Some q)) \<and> heap s3 ! q = heap s2 ! m)"
    by blast
  from update_task_merges [OF d b e] have second:
    "\<exists>s2 m. update_task ?z ''t1'' ?kw = (s2, Inr m)
         \<and> MesosTaskParameters_init [] ?kw = ([heap s2 ! m], Inr m)
         \<and> (\<exists>s3 q. get_task s2 ''t1'' = (s3, Inr (Some q)) \<and> heap s3 ! q = heap s2 ! m)"
    by auto
  show ?thesis using a b c d e first second by blast
qed

end
